theory Spec2Isabelle
  imports Main "HOL-Library.AList" "HOL-Library.Signed_Division"
begin

section \<open>Tick-to-candle pipeline: data model\<close>

text \<open>
  The embedding follows \<^verbatim>\<open>pipeline.go\<close>.  Go's \<^verbatim>\<open>int\<close> is taken to be 64 bits wide
  (\<^verbatim>\<open>strconv.IntSize = 64\<close>); it is modelled by \<^typ>\<open>int\<close>, with the two's-complement
  wrap-around written out (\<open>wrap64\<close>) at the two places where the program does
  arithmetic on it (\<^verbatim>\<open>parsePrice\<close>).  A \<^verbatim>\<open>time.Time\<close> is modelled as the number
  of nanoseconds since the Unix epoch, read in UTC (the only location \<^verbatim>\<open>parse\<close>
  produces), and a \<^verbatim>\<open>time.Duration\<close> as a number of nanoseconds.
\<close>

datatype error =
    ErrInvalidLineFormat
  | ErrSyntax
  | ErrRange
  | ErrTime
  | ErrIO string

record Line =
  Ticker :: string
  Timestamp :: int
  Price :: int
  Count :: int

record Candle =
  Ticker :: string
  Start :: int
  PriceStart :: int
  PriceEnd :: int
  PriceMin :: int
  PriceMax :: int

definition newCandle :: "int \<Rightarrow> string \<Rightarrow> int \<Rightarrow> Candle" where
  "newCandle ts ticker price =
     \<lparr>Candle.Ticker = ticker, Start = ts, PriceStart = price,
      PriceEnd = price, PriceMin = price, PriceMax = price\<rparr>"

section \<open>The library functions the program calls\<close>

text \<open>
  \<^verbatim>\<open>strconv.ParseInt(s, 10, 0)\<close>: an optional sign, then \<^verbatim>\<open>ParseUint\<close>'s loop over
  the bytes, which stops with a syntax error at the first byte that is not a decimal
  digit and with a range error as soon as the value leaves 64 bits; then the check
  against the signed range.
\<close>

definition wrap64 :: "int \<Rightarrow> int" where
  "wrap64 x = (x + 2 ^ 63) mod 2 ^ 64 - 2 ^ 63"

definition is_digit :: "char \<Rightarrow> bool" where
  "is_digit c \<longleftrightarrow> 48 \<le> (of_char c :: nat) \<and> (of_char c :: nat) \<le> 57"

definition digit_value :: "char \<Rightarrow> nat" where
  "digit_value c = of_char c - 48"

definition maxUint64 :: nat where
  "maxUint64 = 2 ^ 64 - 1"

fun ParseUint_loop :: "nat \<Rightarrow> string \<Rightarrow> error + nat" where
  "ParseUint_loop n [] = Inr n"
| "ParseUint_loop n (c # cs) =
     (if \<not> is_digit c then Inl ErrSyntax
      else if n \<ge> maxUint64 div 10 + 1 then Inl ErrRange
      else let n1 = n * 10 + digit_value c
           in if n1 > maxUint64 then Inl ErrRange else ParseUint_loop n1 cs)"

definition ParseUint :: "string \<Rightarrow> error + nat" where
  "ParseUint s = (if s = [] then Inl ErrSyntax else ParseUint_loop 0 s)"

definition ParseInt :: "string \<Rightarrow> error + int" where
  "ParseInt s =
     (if s = [] then Inl ErrSyntax
      else let neg = (hd s = CHR ''-'');
               s1 = (if hd s = CHR ''+'' \<or> hd s = CHR ''-'' then tl s else s)
           in case ParseUint s1 of
                Inl ErrRange \<Rightarrow> Inl ErrRange
              | Inl e \<Rightarrow> Inl e
              | Inr un \<Rightarrow>
                  if \<not> neg \<and> un \<ge> 2 ^ 63 then Inl ErrRange
                  else if neg \<and> un > 2 ^ 63 then Inl ErrRange
                  else Inr (if neg then - int un else int un))"

text \<open>\<^verbatim>\<open>strings.Split(s, sep)\<close> and \<^verbatim>\<open>strings.SplitN(s, sep, 2)\<close> for a one-byte separator.\<close>

fun Split :: "char \<Rightarrow> string \<Rightarrow> string list" where
  "Split sep [] = [[]]"
| "Split sep (c # cs) =
     (if c = sep then [] # Split sep cs
      else (case Split sep cs of [] \<Rightarrow> [[c]] | p # ps \<Rightarrow> (c # p) # ps))"

definition SplitN2 :: "char \<Rightarrow> string \<Rightarrow> string list" where
  "SplitN2 sep s =
     (if sep \<in> set s
      then [takeWhile (\<lambda>c. c \<noteq> sep) s, tl (dropWhile (\<lambda>c. c \<noteq> sep) s)]
      else [s])"

text \<open>\<^verbatim>\<open>fmt.Sprintf("%d", i)\<close>: the decimal digits, after a minus sign when negative.\<close>

fun digits :: "nat \<Rightarrow> string" where
  "digits n = (if n < 10 then [char_of (48 + n)]
               else digits (n div 10) @ [char_of (48 + n mod 10)])"

declare digits.simps [simp del]

definition itoa :: "int \<Rightarrow> string" where
  "itoa i = (if i < 0 then CHR ''-'' # digits (nat (- i)) else digits (nat i))"

section \<open>The price codec\<close>

definition parsePrice :: "string \<Rightarrow> error + int" where
  "parsePrice str =
     (let parts = SplitN2 CHR ''.'' str
      in case ParseInt (parts ! 0) of
           Inl err \<Rightarrow> Inl err
         | Inr i \<Rightarrow>
             let price = wrap64 (i * 100)
             in if length parts > 1
                then let cents = parts ! 1;
                         cents = (if length cents = 1 then cents @ ''0'' else cents)
                     in case ParseInt cents of
                          Inl err \<Rightarrow> Inl err
                        | Inr i \<Rightarrow> Inr (wrap64 (price + i))
                else Inr price)"

text \<open>Go's \<^verbatim>\<open>/\<close> and \<^verbatim>\<open>%\<close> truncate towards zero: \<open>sdiv\<close> and \<open>smod\<close>.\<close>

definition formatPrice :: "int \<Rightarrow> string" where
  "formatPrice price =
     (let rem = price smod 100
      in if rem > 0
         then let rem = (if rem smod 10 = 0 then rem sdiv 10 else rem)
              in itoa (price sdiv 100) @ ''.'' @ itoa rem
         else itoa (price sdiv 100))"

section \<open>The line parser and the reader\<close>

text \<open>
  \<^verbatim>\<open>time.Parse\<close> with the layout \<^verbatim>\<open>2006-01-02 15:04:05.999999\<close> belongs to the
  standard library; \<open>parse\<close> takes it as the parameter \<open>tparse\<close>.  \<open>parse\<close> returns
  \<^verbatim>\<open>(nil, err)\<close> on every failure, which is \<open>Inl err\<close> here.
\<close>

definition parse :: "(string \<Rightarrow> error + int) \<Rightarrow> string \<Rightarrow> error + Line" where
  "parse tparse str =
     (let parts = Split CHR '','' str
      in if length parts < 4 then Inl ErrInvalidLineFormat
         else case parsePrice (parts ! 1) of
                Inl err \<Rightarrow> Inl err
              | Inr price \<Rightarrow>
                  (case ParseInt (parts ! 2) of
                     Inl err \<Rightarrow> Inl err
                   | Inr i \<Rightarrow>
                       (case tparse (parts ! 3) of
                          Inl err \<Rightarrow> Inl err
                        | Inr ts \<Rightarrow>
                            Inr \<lparr>Line.Ticker = parts ! 0, Timestamp = ts,
                                 Price = price, Count = i\<rparr>)))"

text \<open>
  \<open>read\<close> is modelled by the sequence of channel operations it performs, every
  send finding its receiver: \<open>ErrCh e\<close> is \<^verbatim>\<open>errch <- e\<close>, \<open>Out i v\<close> is \<^verbatim>\<open>outs[i] <- v\<close>
  (the value sent is a \<^verbatim>\<open>*Line\<close>, \<open>None\<close> being \<^verbatim>\<open>nil\<close>), \<open>Close i\<close> is
  \<^verbatim>\<open>close(outs[i])\<close>.  The scanner is given by the lines it yields and the error
  \<^verbatim>\<open>scanner.Err()\<close> reports afterwards; \<open>n\<close> is the number of output channels.
\<close>

datatype revent = ErrCh error | Out nat "Line option" | Close nat

fun read_lines :: "(string \<Rightarrow> error + int) \<Rightarrow> nat \<Rightarrow> string list \<Rightarrow> revent list" where
  "read_lines tparse n [] = []"
| "read_lines tparse n (text # rest) =
     (case parse tparse text of
        Inl err \<Rightarrow> ErrCh err # map (\<lambda>i. Out i None) [0..<n]
      | Inr line \<Rightarrow> map (\<lambda>i. Out i (Some line)) [0..<n])
     @ read_lines tparse n rest"

definition read :: "(string \<Rightarrow> error + int) \<Rightarrow> string list \<Rightarrow> error option \<Rightarrow> nat \<Rightarrow> revent list" where
  "read tparse lines scan_err n =
     read_lines tparse n lines
     @ (case scan_err of None \<Rightarrow> [] | Some err \<Rightarrow> [ErrCh err])
     @ map Close [0..<n]"

section \<open>The window aggregator\<close>

definition Minute :: int where
  "Minute = 60 * 1000000000"

definition Hour :: int where
  "Hour = 60 * Minute"

definition TradesStart :: int where
  "TradesStart = 420 * Minute"

definition TradesDuration :: int where
  "TradesDuration = 1020 * Minute"

text \<open>
  \<^verbatim>\<open>y, m, d := t.Date(); time.Date(y, m, d, 0, 0, 0, 0, time.UTC)\<close>: the midnight
  that starts the UTC calendar day of \<open>t\<close>.
\<close>

definition midnight :: "int \<Rightarrow> int" where
  "midnight t = t - t mod (24 * Hour)"

text \<open>
  The local variables of \<open>process\<close>: the map \<^verbatim>\<open>candles\<close> (an association list with
  one entry per key; Go leaves the iteration order of a map open, the model
  iterates in order of insertion), \<^verbatim>\<open>day\<close> and the three fields of \<^verbatim>\<open>interval\<close>.
\<close>

record state =
  candles :: "(string \<times> Candle) list"
  day :: int
  interval_l :: int
  interval_r :: int
  interval_max :: int

text \<open>Lines 132 to 146: what the first line received sets up.\<close>

definition init :: "int \<Rightarrow> Line \<Rightarrow> state" where
  "init span line =
     (let day0 = midnight (Timestamp line);
          start = day0 + TradesStart;
          st = \<lparr>candles = [], day = day0, interval_l = start,
                interval_r = start + span, interval_max = start + TradesDuration\<rparr>
      in if \<not> Timestamp line < interval_l st
         then st\<lparr>candles := AList.update (Line.Ticker line)
                    (newCandle (interval_l st) (Line.Ticker line) (Price line)) (candles st)\<rparr>
         else st)"

text \<open>Lines 162 to 173: one round of the loop that adjusts the interval.\<close>

definition advance :: "int \<Rightarrow> state \<Rightarrow> state" where
  "advance span st =
     (if interval_r st = interval_max st
      then let day1 = day st + 24 * Hour;
               l1 = day1 + TradesStart
           in st\<lparr>day := day1, interval_l := l1, interval_r := l1 + span,
                 interval_max := l1 + TradesDuration\<rparr>
      else let l1 = interval_l st + span;
               r1 = interval_r st + span
           in st\<lparr>interval_l := l1,
                 interval_r := (if r1 > interval_max st then interval_max st else r1)\<rparr>)"

text \<open>Line 161: the loop itself, which need not end (\<open>None\<close>) when \<open>span \<le> 0\<close>.\<close>

partial_function (option) adjust :: "int \<Rightarrow> int \<Rightarrow> state \<Rightarrow> state option" where
  "adjust span ts st =
     (if ts > interval_r st then adjust span ts (advance span st) else Some st)"

text \<open>Lines 180 to 190: the line is added to the candle of its ticker.\<close>

definition aggregate :: "state \<Rightarrow> Line \<Rightarrow> state" where
  "aggregate st line =
     (case map_of (candles st) (Line.Ticker line) of
        Some candle \<Rightarrow>
          let candle = (if Price line < PriceMin candle
                        then candle\<lparr>PriceMin := Price line\<rparr> else candle);
              candle = (if Price line > PriceMax candle
                        then candle\<lparr>PriceMax := Price line\<rparr> else candle);
              candle = candle\<lparr>PriceEnd := Price line\<rparr>
          in st\<lparr>candles := AList.update (Line.Ticker line) candle (candles st)\<rparr>
      | None \<Rightarrow>
          st\<lparr>candles := AList.update (Line.Ticker line)
                (newCandle (interval_l st) (Line.Ticker line) (Price line)) (candles st)\<rparr>)"

text \<open>
  Lines 149 to 190: the body of the main loop, for one line.  The result is the
  list of candles sent on \<^verbatim>\<open>out\<close> and the new state.
\<close>

definition step :: "int \<Rightarrow> state \<Rightarrow> Line \<Rightarrow> (Candle list \<times> state) option" where
  "step span st line =
     (if Timestamp line < interval_l st then Some ([], st)
      else if Timestamp line > interval_r st \<or> Timestamp line = interval_r st
      then (case adjust span (Timestamp line) (st\<lparr>candles := []\<rparr>) of
              None \<Rightarrow> None
            | Some st1 \<Rightarrow> Some (map snd (candles st), aggregate st1 line))
      else Some ([], aggregate st line))"

fun loop :: "int \<Rightarrow> state \<Rightarrow> Line list \<Rightarrow> (Candle list \<times> state) option" where
  "loop span st [] = Some ([], st)"
| "loop span st (line # rest) =
     (case step span st line of
        None \<Rightarrow> None
      | Some (out1, st1) \<Rightarrow>
          (case loop span st1 rest of
             None \<Rightarrow> None
           | Some (out2, st2) \<Rightarrow> Some (out1 @ out2, st2)))"

text \<open>
  \<open>process\<close>: the lines received until the input channel is closed, and the candles
  sent on the output channel, in order; \<open>None\<close> when the function does not return.
  The lines are the non-nil pointers the channel carries.
\<close>

definition process :: "int \<Rightarrow> Line list \<Rightarrow> Candle list option" where
  "process span input =
     (case input of
        [] \<Rightarrow> Some []
      | line # rest \<Rightarrow>
          (case loop span (init span line) rest of
             None \<Rightarrow> None
           | Some (out, st) \<Rightarrow> Some (out @ map snd (candles st))))"

section \<open>The writer\<close>

text \<open>
  The \<^verbatim>\<open>io.Writer\<close> is a state \<open>w\<close> with a function \<open>wr\<close> that takes the bytes of one
  \<^verbatim>\<open>Fprintf\<close> and returns the new state and the error, if any;
  \<^verbatim>\<open>Time.Format(time.RFC3339)\<close> is the parameter \<open>tformat\<close>.  The result of \<open>write_fn\<close> (the function \<^verbatim>\<open>write\<close>) is
  the writer's last state and the sends the function performs: \<open>ErrSend e\<close> on
  \<^verbatim>\<open>errch\<close>, \<open>DoneSend\<close> on \<^verbatim>\<open>out\<close>.
\<close>

datatype wevent = ErrSend error | DoneSend

definition record_of :: "(int \<Rightarrow> string) \<Rightarrow> Candle \<Rightarrow> string" where
  "record_of tformat candle =
     Candle.Ticker candle @ '','' @ tformat (Start candle) @ '','' @
     formatPrice (PriceStart candle) @ '','' @ formatPrice (PriceMax candle) @ '','' @
     formatPrice (PriceMin candle) @ '','' @ formatPrice (PriceEnd candle) @ [CHR 0x0A]"

fun write_loop ::
  "(int \<Rightarrow> string) \<Rightarrow> ('w \<Rightarrow> string \<Rightarrow> 'w \<times> error option) \<Rightarrow> 'w \<Rightarrow> Candle list \<Rightarrow> 'w \<times> wevent list" where
  "write_loop tformat wr w [] = (w, [])"
| "write_loop tformat wr w (candle # rest) =
     (case wr w (record_of tformat candle) of
        (w1, err) \<Rightarrow>
          (case write_loop tformat wr w1 rest of
             (w2, evs) \<Rightarrow>
               (w2, (case err of None \<Rightarrow> [] | Some e \<Rightarrow> [ErrSend e]) @ evs)))"

definition write_fn ::
  "(int \<Rightarrow> string) \<Rightarrow> ('w \<Rightarrow> string \<Rightarrow> 'w \<times> error option) \<Rightarrow> 'w \<Rightarrow> Candle list \<Rightarrow> 'w \<times> wevent list" where
  "write_fn tformat wr w input =
     (case write_loop tformat wr w input of (w1, evs) \<Rightarrow> (w1, evs @ [DoneSend]))"

section \<open>Notions used to state the properties\<close>

text \<open>
  Example inputs are built from \<open>jan30\<close>, the instant 2019-01-30T00:00:00Z (day 17926
  of the Unix era), a time of day \<open>clock h m s\<close>, and \<open>tick\<close>.
\<close>

definition jan30 :: int where
  "jan30 = 17926 * (24 * Hour)"

definition clock :: "int \<Rightarrow> int \<Rightarrow> int \<Rightarrow> int" where
  "clock h m s = h * Hour + m * Minute + s * 1000000000"

definition tick :: "string \<Rightarrow> int \<Rightarrow> int \<Rightarrow> Line" where
  "tick k ts p = \<lparr>Line.Ticker = k, Timestamp = ts, Price = p, Count = 1\<rparr>"

text \<open>The pair of ticker and window that a candle stands for.\<close>

definition window_key :: "Candle \<Rightarrow> string \<times> int" where
  "window_key c = (Candle.Ticker c, Start c)"

text \<open>The ordering of the four prices of a candle.\<close>

definition ordered :: "Candle \<Rightarrow> bool" where
  "ordered c \<longleftrightarrow>
     PriceMin c \<le> PriceStart c \<and> PriceStart c \<le> PriceMax c \<and>
     PriceMin c \<le> PriceEnd c \<and> PriceEnd c \<le> PriceMax c \<and> PriceMin c \<le> PriceMax c"

text \<open>
  The prices of the lines of one ticker, in order of arrival, and the candle that
  summarises a non-empty list of prices for the window that starts at \<open>l\<close>.
\<close>

definition prices_of :: "string \<Rightarrow> Line list \<Rightarrow> int list" where
  "prices_of k input = map Price (filter (\<lambda>line. Line.Ticker line = k) input)"

definition ohlc :: "int \<Rightarrow> string \<Rightarrow> int list \<Rightarrow> Candle" where
  "ohlc l k ps =
     \<lparr>Candle.Ticker = k, Start = l, PriceStart = hd ps, PriceEnd = last ps,
      PriceMin = Min (set ps), PriceMax = Max (set ps)\<rparr>"

text \<open>
  A writer that also keeps the list of the byte strings it was asked to write, and
  the results of writing the record of every candle of a list in turn.
\<close>

definition logged ::
  "('w \<Rightarrow> string \<Rightarrow> 'w \<times> error option) \<Rightarrow> 'w \<times> string list \<Rightarrow> string \<Rightarrow> ('w \<times> string list) \<times> error option" where
  "logged wr wl s = (case wr (fst wl) s of (w1, err) \<Rightarrow> ((w1, snd wl @ [s]), err))"

fun attempts ::
  "(int \<Rightarrow> string) \<Rightarrow> ('w \<Rightarrow> string \<Rightarrow> 'w \<times> error option) \<Rightarrow> 'w \<Rightarrow> Candle list \<Rightarrow> error option list" where
  "attempts tformat wr w [] = []"
| "attempts tformat wr w (candle # rest) =
     snd (wr w (record_of tformat candle))
     # attempts tformat wr (fst (wr w (record_of tformat candle))) rest"

text \<open>An example writer: it counts the calls and fails on every record that starts with \<open>S\<close>.\<close>

definition failing_writer :: "nat \<Rightarrow> string \<Rightarrow> nat \<times> error option" where
  "failing_writer n s = (Suc n, if hd s = CHR ''S'' then Some (ErrIO ''short write'') else None)"

text \<open>What lines 181 to 187 do to the candle of a ticker, written with \<open>min\<close> and \<open>max\<close>.\<close>

definition update_prices :: "Candle \<Rightarrow> int \<Rightarrow> Candle" where
  "update_prices c p =
     c\<lparr>PriceMin := min (PriceMin c) p, PriceMax := max (PriceMax c) p, PriceEnd := p\<rparr>"

text \<open>
  \<open>summary l input out\<close>: the candles \<open>out\<close> are, in some order, one candle for every
  ticker that occurs in \<open>input\<close>, with window start \<open>l\<close>, the price of the first line
  of the ticker as open, of its last line as close, and the greatest and the least
  of its prices as high and low.
\<close>

definition summary :: "int \<Rightarrow> Line list \<Rightarrow> Candle list \<Rightarrow> bool" where
  "summary l input out \<longleftrightarrow>
     distinct (map Candle.Ticker out) \<and>
     Candle.Ticker ` set out = Line.Ticker ` set input \<and>
     (\<forall>c\<in>set out. c = ohlc l (Candle.Ticker c) (prices_of (Candle.Ticker c) input))"

text \<open>
  Decimal numerals, to state what the price codec reads and writes: the value of a
  string of digits, the strings that are an optional sign followed by at least one
  digit, their value, and \<open>decimal\<close>, which is that value when it fits Go's \<^verbatim>\<open>int\<close>.
  \<open>pad\<close> is what lines 260 to 262 do to the text after the point.
\<close>

definition digits_value :: "string \<Rightarrow> nat" where
  "digits_value s = foldl (\<lambda>a c. a * 10 + digit_value c) 0 s"

definition unsigned_part :: "string \<Rightarrow> string" where
  "unsigned_part s = (if s \<noteq> [] \<and> (hd s = CHR ''+'' \<or> hd s = CHR ''-'') then tl s else s)"

definition is_decimal :: "string \<Rightarrow> bool" where
  "is_decimal s \<longleftrightarrow> unsigned_part s \<noteq> [] \<and> list_all is_digit (unsigned_part s)"

definition decimal_value :: "string \<Rightarrow> int" where
  "decimal_value s =
     (if s \<noteq> [] \<and> hd s = CHR ''-'' then - int (digits_value (unsigned_part s))
      else int (digits_value (unsigned_part s)))"

definition in_int64 :: "int \<Rightarrow> bool" where
  "in_int64 v \<longleftrightarrow> - (2 ^ 63) \<le> v \<and> v < 2 ^ 63"

definition decimal :: "string \<Rightarrow> int option" where
  "decimal s =
     (if is_decimal s \<and> in_int64 (decimal_value s) then Some (decimal_value s) else None)"

definition pad :: "string \<Rightarrow> string" where
  "pad cents = (if length cents = 1 then cents @ ''0'' else cents)"

section \<open>The loop that adjusts the interval\<close>

lemmas run_simps = process_def init_def step_def aggregate_def advance_def adjust.simps
  midnight_def Minute_def Hour_def TradesStart_def TradesDuration_def newCandle_def Let_def
  jan30_def clock_def tick_def

lemma advance_candles [simp]: "candles (advance span st) = candles st"
  by (simp add: advance_def Let_def)

text \<open>
  With a positive span the loop ends: a round either moves to the next day, or
  clips a right end that lies beyond the session end, or moves the right end
  towards the session end.
\<close>

lemma adjust_terminates:
  assumes "0 < span"
  shows "\<exists>st1. adjust span ts st = Some st1"
proof (induction st rule: wf_induct_rule [OF wf_measures
        [of "[\<lambda>s. nat (ts - day s),
              \<lambda>s. if interval_r s > interval_max s then 1 else 0,
              \<lambda>s. nat (interval_max s - interval_r s)]"]])
  case (1 st)
  show ?case
  proof (cases "ts > interval_r st")
    case False
    then show ?thesis by (simp add: adjust.simps)
  next
    case gt: True
    let ?st = "advance span st"
    have unfold: "adjust span ts st = adjust span ts ?st"
      using gt by (subst adjust.simps) simp
    show ?thesis
    proof (cases "ts > interval_r ?st")
      case False
      then have "adjust span ts ?st = Some ?st" by (simp add: adjust.simps)
      with unfold show ?thesis by simp
    next
      case gt1: True
      have "(?st, st) \<in> measures [\<lambda>s. nat (ts - day s),
              \<lambda>s. if interval_r s > interval_max s then 1 else 0,
              \<lambda>s. nat (interval_max s - interval_r s)]"
      proof (cases "interval_r st = interval_max st")
        case True
        then have "day ?st = day st + 24 * Hour" "interval_r ?st = day ?st + TradesStart + span"
          by (simp_all add: advance_def Let_def)
        with gt1 assms have "nat (ts - day ?st) < nat (ts - day st)"
          by (simp add: Hour_def Minute_def TradesStart_def)
        then show ?thesis by simp
      next
        case False
        then show ?thesis using assms
          by (auto simp add: advance_def Let_def)
      qed
      from 1 [OF this] unfold show ?thesis by simp
    qed
  qed
qed

text \<open>When the loop ends, the map is untouched and the line is not after the right end.\<close>

lemma adjust_post:
  assumes "adjust span ts st = Some st1"
  shows "candles st1 = candles st \<and> ts \<le> interval_r st1"
proof (rule adjust.raw_induct
    [where P = "\<lambda>span ts st st1. candles st1 = candles st \<and> ts \<le> interval_r st1", OF _ assms])
  fix adjust' span ts st st1
  assume IH: "\<And>span ts st st1. adjust' span ts st = Some st1 \<Longrightarrow>
                candles st1 = candles st \<and> ts \<le> interval_r st1"
    and eq: "(if interval_r st < ts then adjust' span ts (advance span st) else Some st) = Some st1"
  show "candles st1 = candles st \<and> ts \<le> interval_r st1"
  proof (cases "interval_r st < ts")
    case True
    with eq have "adjust' span ts (advance span st) = Some st1" by simp
    from IH [OF this] show ?thesis by simp
  next
    case False
    with eq show ?thesis by simp
  qed
qed

lemma step_total:
  assumes "0 < span"
  shows "\<exists>out st1. step span st line = Some (out, st1)"
proof -
  obtain st1 where "adjust span (Timestamp line) (st\<lparr>candles := []\<rparr>) = Some st1"
    using adjust_terminates [OF assms] by blast
  then show ?thesis by (simp add: step_def)
qed

lemma loop_total:
  assumes "0 < span"
  shows "\<exists>out st1. loop span st input = Some (out, st1)"
proof (induction input arbitrary: st)
  case Nil
  show ?case by simp
next
  case (Cons line rest)
  obtain out1 st1 where s: "step span st line = Some (out1, st1)"
    using step_total [OF assms] by blast
  obtain out2 st2 where "loop span st1 rest = Some (out2, st2)"
    using Cons by blast
  with s show ?case by simp
qed

lemma process_total:
  assumes "0 < span"
  shows "\<exists>out. process span input = Some out"
proof (cases input)
  case Nil
  then show ?thesis by (simp add: process_def)
next
  case (Cons line rest)
  obtain out st where "loop span (init span line) rest = Some (out, st)"
    using loop_total [OF assms] by blast
  with Cons show ?thesis by (simp add: process_def)
qed

section \<open>The window transition at and beyond the right end\<close>

text \<open>
  C1.  A line whose timestamp is at or after the right end \<open>r\<close> of the window closes
  the window, and the window is then to move until the timestamp is before \<open>r\<close>.
  The loop of line 161 runs only while the timestamp is after \<open>r\<close>, so it stops
  with the timestamp equal to \<open>r\<close>: with a span of five minutes, a line at
  07:05:00 that follows a line at 07:00:01 closes the window of 07:00 and is then
  put into a new candle of that same window, and a line at 07:10:00 is put into
  the window of 07:05.
\<close>

theorem boundary_tick_stays_in_closed_window:
  "process (5 * Minute)
     [tick ''AAPL'' (jan30 + clock 7 0 1) 16288, tick ''AAPL'' (jan30 + clock 7 5 0) 16148]
   = Some [newCandle (jan30 + clock 7 0 0) ''AAPL'' 16288,
           newCandle (jan30 + clock 7 0 0) ''AAPL'' 16148]
   \<and> process (5 * Minute)
     [tick ''AAPL'' (jan30 + clock 7 0 1) 16288, tick ''AAPL'' (jan30 + clock 7 10 0) 16148]
   = Some [newCandle (jan30 + clock 7 0 0) ''AAPL'' 16288,
           newCandle (jan30 + clock 7 5 0) ''AAPL'' 16148]"
  by (simp add: run_simps)

text \<open>
  C3.  No pair of ticker and window is to appear twice in the output.  With a span
  of thirty minutes, lines of one ticker at 07:10:00 and at 07:30:00 give two
  candles for the window of 07:00.
\<close>

theorem window_emitted_twice:
  "process (30 * Minute)
     [tick ''SBER'' (jan30 + clock 7 10 0) 21380, tick ''SBER'' (jan30 + clock 7 30 0) 21390]
   = Some [newCandle (jan30 + clock 7 0 0) ''SBER'' 21380,
           newCandle (jan30 + clock 7 0 0) ''SBER'' 21390]
   \<and> \<not> distinct (map window_key
          [newCandle (jan30 + clock 7 0 0) ''SBER'' 21380,
           newCandle (jan30 + clock 7 0 0) ''SBER'' 21390])"
  by (simp add: run_simps window_key_def)

text \<open>
  C4.  After the window has moved, the line is to be checked again against the new
  left end.  The check of line 149 comes before the move only: with a span of 240
  minutes, a line at 03:00 of the next day, which moves the window to 07:00 of
  that day, opens the candle of that window, while the line at 03:30 that follows
  it is discarded.
\<close>

theorem pre_session_tick_after_rollover_kept:
  "process (240 * Minute)
     [tick ''SBER'' (jan30 + clock 7 0 1) 21380,
      tick ''SBER'' (jan30 + clock 27 0 0) 21390,
      tick ''SBER'' (jan30 + clock 27 30 0) 21400]
   = Some [newCandle (jan30 + clock 7 0 0) ''SBER'' 21380,
           newCandle (jan30 + clock 31 0 0) ''SBER'' 21390]"
  by (simp add: run_simps)

section \<open>The reader on a line that does not parse\<close>

text \<open>
  C2.  On a line that fails to parse, the reader is to report the error and to
  forward nothing.  Line 105 follows the report of line 102 without a
  \<^verbatim>\<open>continue\<close>: for a line with fewer than four fields and two output channels,
  the reader reports the error and then sends the nil pointer on both channels.
\<close>

theorem failed_line_forwarded:
  "read tparse [''SBER;213.8;100''] None 2
   = [ErrCh ErrInvalidLineFormat, Out 0 None, Out 1 None, Close 0, Close 1]"
  by (simp add: read_def parse_def upt_rec)

section \<open>The first line\<close>

lemma init_in_session:
  assumes "midnight (Timestamp line) + TradesStart \<le> Timestamp line"
  shows "init span line =
     \<lparr>candles = [(Line.Ticker line,
         newCandle (midnight (Timestamp line) + TradesStart) (Line.Ticker line) (Price line))],
      day = midnight (Timestamp line),
      interval_l = midnight (Timestamp line) + TradesStart,
      interval_r = midnight (Timestamp line) + TradesStart + span,
      interval_max = midnight (Timestamp line) + TradesStart + TradesDuration\<rparr>"
  using assms by (simp add: init_def Let_def)

lemma step_beyond:
  assumes "0 < span" and "interval_l st \<le> Timestamp line" and "interval_r st \<le> Timestamp line"
  shows "\<exists>st1. adjust span (Timestamp line) (st\<lparr>candles := []\<rparr>) = Some st1
           \<and> Timestamp line \<le> interval_r st1
           \<and> step span st line =
               Some (map snd (candles st),
                     st1\<lparr>candles := [(Line.Ticker line,
                         newCandle (interval_l st1) (Line.Ticker line) (Price line))]\<rparr>)"
proof -
  obtain st1 where a: "adjust span (Timestamp line) (st\<lparr>candles := []\<rparr>) = Some st1"
    using adjust_terminates [OF assms(1)] by blast
  from adjust_post [OF a] have c: "candles st1 = []" and r: "Timestamp line \<le> interval_r st1"
    by simp_all
  have "aggregate st1 line = st1\<lparr>candles := [(Line.Ticker line,
                         newCandle (interval_l st1) (Line.Ticker line) (Price line))]\<rparr>"
    using c by (simp add: aggregate_def)
  with a r assms(2,3) show ?thesis
    by (auto simp add: step_def)
qed

text \<open>
  C10.  The first line received is tested against the session start only.  When
  its timestamp is not before the start \<open>l\<close> of the session of its day, it opens a
  candle whose window start is \<open>l\<close>, wherever the timestamp lies with respect to
  the right end of the first window, and a run on this line alone emits that
  candle.  The same line received later, by a state whose window it lies at or
  beyond, makes the main loop flush the open candles and adjust the window before
  the line is aggregated.
\<close>

theorem first_line_checked_against_start_only:
  assumes "midnight (Timestamp line) + TradesStart \<le> Timestamp line"
    and "0 < span"
    and "interval_l st \<le> Timestamp line" and "interval_r st \<le> Timestamp line"
  shows "candles (init span line) =
           [(Line.Ticker line,
             newCandle (midnight (Timestamp line) + TradesStart) (Line.Ticker line) (Price line))]
       \<and> process span [line] =
           Some [newCandle (midnight (Timestamp line) + TradesStart) (Line.Ticker line) (Price line)]
       \<and> (\<exists>st1. adjust span (Timestamp line) (st\<lparr>candles := []\<rparr>) = Some st1
             \<and> Timestamp line \<le> interval_r st1
             \<and> step span st line =
                 Some (map snd (candles st),
                       st1\<lparr>candles := [(Line.Ticker line,
                           newCandle (interval_l st1) (Line.Ticker line) (Price line))]\<rparr>))"
proof -
  note i = init_in_session [OF assms(1), of span]
  have "process span [line] =
           Some [newCandle (midnight (Timestamp line) + TradesStart) (Line.Ticker line) (Price line)]"
    by (simp add: process_def i)
  with i step_beyond [OF assms(2,3,4)] show ?thesis by simp
qed

text \<open>
  The example of C10: with a span of five minutes a lone line at 10:00:00 gives a
  candle whose window start is 07:00:00; received after a line at 07:00:01, it
  closes the window of 07:00 and is aggregated after the window has been adjusted
  (to the window that ends at 10:00:00, the loop stopping at equality).
\<close>

theorem first_line_checked_against_start_only_witness:
  "midnight (Timestamp (tick ''AAPL'' (jan30 + clock 10 0 0) 16288)) + TradesStart
     \<le> Timestamp (tick ''AAPL'' (jan30 + clock 10 0 0) 16288)
   \<and> (0::int) < 5 * Minute
   \<and> interval_l (init (5 * Minute) (tick ''AAPL'' (jan30 + clock 7 0 1) 16320))
       \<le> Timestamp (tick ''AAPL'' (jan30 + clock 10 0 0) 16288)
   \<and> interval_r (init (5 * Minute) (tick ''AAPL'' (jan30 + clock 7 0 1) 16320))
       \<le> Timestamp (tick ''AAPL'' (jan30 + clock 10 0 0) 16288)
   \<and> process (5 * Minute) [tick ''AAPL'' (jan30 + clock 10 0 0) 16288]
       = Some [newCandle (jan30 + clock 7 0 0) ''AAPL'' 16288]
   \<and> step (5 * Minute) (init (5 * Minute) (tick ''AAPL'' (jan30 + clock 7 0 1) 16320))
        (tick ''AAPL'' (jan30 + clock 10 0 0) 16288)
       = Some ([newCandle (jan30 + clock 7 0 0) ''AAPL'' 16320],
               \<lparr>candles = [(''AAPL'', newCandle (jan30 + clock 9 55 0) ''AAPL'' 16288)],
                day = jan30, interval_l = jan30 + clock 9 55 0,
                interval_r = jan30 + clock 10 0 0, interval_max = jan30 + clock 24 0 0\<rparr>)"
proof -
  let ?t = "tick ''AAPL'' (jan30 + clock 10 0 0) 16288"
  let ?st = "init (5 * Minute) (tick ''AAPL'' (jan30 + clock 7 0 1) 16320)"
  have h1: "midnight (Timestamp ?t) + TradesStart \<le> Timestamp ?t"
    by (simp add: run_simps)
  have h2: "(0::int) < 5 * Minute" by (simp add: Minute_def)
  have h3: "interval_l ?st \<le> Timestamp ?t" by (simp add: run_simps)
  have h4: "interval_r ?st \<le> Timestamp ?t" by (simp add: run_simps)
  have p: "process (5 * Minute) [?t] = Some [newCandle (jan30 + clock 7 0 0) ''AAPL'' 16288]"
  proof -
    have e: "midnight (Timestamp ?t) + TradesStart = jan30 + clock 7 0 0"
      "Line.Ticker ?t = ''AAPL''" "Price ?t = 16288"
      by (simp_all add: run_simps)
    from first_line_checked_against_start_only [OF h1 h2 h3 h4]
    have "process (5 * Minute) [?t] =
        Some [newCandle (midnight (Timestamp ?t) + TradesStart) (Line.Ticker ?t) (Price ?t)]"
      by (rule conjunct1 [OF conjunct2])
    then show ?thesis unfolding e .
  qed
  have s: "step (5 * Minute) ?st ?t = Some ([newCandle (jan30 + clock 7 0 0) ''AAPL'' 16320],
               \<lparr>candles = [(''AAPL'', newCandle (jan30 + clock 9 55 0) ''AAPL'' 16288)],
                day = jan30, interval_l = jan30 + clock 9 55 0,
                interval_r = jan30 + clock 10 0 0, interval_max = jan30 + clock 24 0 0\<rparr>)"
    by (simp add: run_simps)
  from h1 h2 h3 h4 p s show ?thesis by blast
qed

section \<open>The writer drains its input\<close>

lemma logged_apply:
  "logged wr (w, log) s = ((fst (wr w s), log @ [s]), snd (wr w s))"
  by (simp add: logged_def case_prod_beta)

lemma write_loop_logged:
  "snd (fst (write_loop tformat (logged wr) (w, log) input))
     = log @ map (record_of tformat) input"
proof (induction input arbitrary: w log)
  case Nil
  show ?case by simp
next
  case (Cons candle rest)
  obtain w1 err where wr: "wr w (record_of tformat candle) = (w1, err)"
    by (cases "wr w (record_of tformat candle)")
  obtain wl2 evs where rec: "write_loop tformat (logged wr) (w1, log @ [record_of tformat candle]) rest = (wl2, evs)"
    by (cases "write_loop tformat (logged wr) (w1, log @ [record_of tformat candle]) rest")
  from Cons [of w1 "log @ [record_of tformat candle]"] rec
  have "snd wl2 = log @ record_of tformat candle # map (record_of tformat) rest" by simp
  with wr rec show ?case by (simp add: logged_apply)
qed

lemma write_loop_events:
  "snd (write_loop tformat wr w input)
     = map ErrSend (List.map_filter (\<lambda>x. x) (attempts tformat wr w input))"
proof (induction input arbitrary: w)
  case Nil
  show ?case by (simp add: List.map_filter_simps)
next
  case (Cons candle rest)
  obtain w1 err where wr: "wr w (record_of tformat candle) = (w1, err)"
    by (cases "wr w (record_of tformat candle)")
  obtain w2 evs where rec: "write_loop tformat wr w1 rest = (w2, evs)"
    by (cases "write_loop tformat wr w1 rest")
  from Cons [of w1] rec
  have "evs = map ErrSend (List.map_filter (\<lambda>x. x) (attempts tformat wr w1 rest))" by simp
  with wr rec show ?case by (cases err) (simp_all add: List.map_filter_simps)
qed

lemma attempts_length: "length (attempts tformat wr w input) = length input"
  by (induction input arbitrary: w) simp_all

text \<open>
  C9.  The writer writes one record for every candle it receives, in order, whatever
  the results of the earlier writes (the log of a logging writer is the list of the
  records of all candles); every failed write is reported on the error channel and
  nothing else is; and the completion signal is sent exactly once, after all of
  them.  Every send is taken to find its receiver.
\<close>

theorem write_drains_input:
  "snd (fst (write_fn tformat (logged wr) (w, []) input)) = map (record_of tformat) input
   \<and> length (attempts tformat wr w input) = length input
   \<and> snd (write_fn tformat wr w input)
       = map ErrSend (List.map_filter (\<lambda>x. x) (attempts tformat wr w input)) @ [DoneSend]
   \<and> count_list (snd (write_fn tformat wr w input)) DoneSend = 1"
proof -
  have a: "snd (fst (write_fn tformat (logged wr) (w, []) input)) = map (record_of tformat) input"
    using write_loop_logged [of tformat wr w "[]" input]
    by (simp add: write_fn_def case_prod_beta)
  have b: "snd (write_fn tformat wr w input)
       = map ErrSend (List.map_filter (\<lambda>x. x) (attempts tformat wr w input)) @ [DoneSend]"
    using write_loop_events [of tformat wr w input]
    by (simp add: write_fn_def case_prod_beta)
  have "count_list (map ErrSend xs) DoneSend = 0" for xs
    by (induction xs) simp_all
  with b have c: "count_list (snd (write_fn tformat wr w input)) DoneSend = 1"
    by simp
  show ?thesis by (intro conjI a b c attempts_length)
qed

text \<open>Three candles, of which the first and the third fail to be written.\<close>

lemma write_example:
  "write_fn (\<lambda>t. ''T'') failing_writer 0
     [newCandle 0 ''SBER'' 21380, newCandle 0 ''AAPL'' 16300, newCandle 0 ''SNAP'' 100]
   = (3, [ErrSend (ErrIO ''short write''), ErrSend (ErrIO ''short write''), DoneSend])"
  by (simp add: write_fn_def failing_writer_def record_of_def newCandle_def)

section \<open>The ordering of the prices of a candle\<close>

lemma set_update_subset: "set (AList.update k v al) \<subseteq> insert (k, v) (set al)"
  by (induction al) auto

lemma aggregate_fields [simp]:
  "day (aggregate st line) = day st"
  "interval_l (aggregate st line) = interval_l st"
  "interval_r (aggregate st line) = interval_r st"
  "interval_max (aggregate st line) = interval_max st"
  by (simp_all add: aggregate_def Let_def split: option.split)

lemma aggregate_lookup:
  "map_of (candles (aggregate st line)) k =
     (if Line.Ticker line = k
      then Some (case map_of (candles st) k of
                   None \<Rightarrow> newCandle (interval_l st) k (Price line)
                 | Some c \<Rightarrow> update_prices c (Price line))
      else map_of (candles st) k)"
  by (auto simp add: aggregate_def Let_def update_conv' update_prices_def min_def max_def
      split: option.split)

lemma aggregate_keys:
  "map fst (candles (aggregate st line)) =
     (if Line.Ticker line \<in> set (map fst (candles st)) then map fst (candles st)
      else map fst (candles st) @ [Line.Ticker line])"
  by (simp add: aggregate_def Let_def update_keys split: option.split)

lemma ordered_newCandle: "ordered (newCandle ts k p)"
  by (simp add: ordered_def newCandle_def)

lemma ordered_update_prices: "ordered c \<Longrightarrow> ordered (update_prices c p)"
  by (auto simp add: ordered_def update_prices_def)

lemma aggregate_ordered:
  assumes "\<forall>c\<in>snd ` set (candles st). ordered c"
  shows "\<forall>c\<in>snd ` set (candles (aggregate st line)). ordered c"
proof
  fix c assume "c \<in> snd ` set (candles (aggregate st line))"
  then obtain k where kc: "(k, c) \<in> set (candles (aggregate st line))" by auto
  show "ordered c"
  proof (cases "map_of (candles st) (Line.Ticker line)")
    case None
    then have "candles (aggregate st line) = AList.update (Line.Ticker line)
        (newCandle (interval_l st) (Line.Ticker line) (Price line)) (candles st)"
      by (simp add: aggregate_def)
    with kc set_update_subset have "c = newCandle (interval_l st) (Line.Ticker line) (Price line)
        \<or> (k, c) \<in> set (candles st)" by fastforce
    then show ?thesis using assms ordered_newCandle by force
  next
    case (Some c0)
    then have "(Line.Ticker line, c0) \<in> set (candles st)" by (rule map_of_SomeD)
    with assms have o: "ordered c0" by force
    from Some have "candles (aggregate st line) = AList.update (Line.Ticker line)
        (update_prices c0 (Price line)) (candles st)"
      by (simp add: aggregate_def Let_def update_prices_def min_def max_def)
    with kc set_update_subset have "c = update_prices c0 (Price line)
        \<or> (k, c) \<in> set (candles st)" by fastforce
    then show ?thesis using assms ordered_update_prices [OF o] by force
  qed
qed

lemma step_ordered:
  assumes "step span st line = Some (out, st1)" and "\<forall>c\<in>snd ` set (candles st). ordered c"
  shows "(\<forall>c\<in>set out. ordered c) \<and> (\<forall>c\<in>snd ` set (candles st1). ordered c)"
proof (cases "Timestamp line < interval_l st")
  case True
  with assms show ?thesis by (simp add: step_def)
next
  case l: False
  show ?thesis
  proof (cases "Timestamp line > interval_r st \<or> Timestamp line = interval_r st")
    case False
    with l assms(1) have "out = []" "st1 = aggregate st line" by (auto simp add: step_def)
    with aggregate_ordered [OF assms(2)] show ?thesis by simp
  next
    case True
    with l assms(1) obtain st2 where a: "adjust span (Timestamp line) (st\<lparr>candles := []\<rparr>) = Some st2"
      and o: "out = map snd (candles st)" and s: "st1 = aggregate st2 line"
      by (auto simp add: step_def split: option.splits)
    from adjust_post [OF a] have "candles st2 = []" by simp
    then have "\<forall>c\<in>snd ` set (candles st2). ordered c" by simp
    from aggregate_ordered [OF this] s o assms(2) show ?thesis by auto
  qed
qed

lemma loop_ordered:
  assumes "loop span st input = Some (out, st1)" and "\<forall>c\<in>snd ` set (candles st). ordered c"
  shows "(\<forall>c\<in>set out. ordered c) \<and> (\<forall>c\<in>snd ` set (candles st1). ordered c)"
  using assms
proof (induction input arbitrary: st out)
  case Nil
  then show ?case by simp
next
  case (Cons line rest)
  from Cons.prems(1) obtain o1 s1 o2 where s: "step span st line = Some (o1, s1)"
    and l: "loop span s1 rest = Some (o2, st1)" and out: "out = o1 @ o2"
    by (auto split: option.splits)
  from step_ordered [OF s Cons.prems(2)] have 1: "\<forall>c\<in>set o1. ordered c"
    and 2: "\<forall>c\<in>snd ` set (candles s1). ordered c" by simp_all
  from Cons.IH [OF l 2] 1 out show ?case by auto
qed

lemma init_ordered: "\<forall>c\<in>snd ` set (candles (init span line)). ordered c"
  by (simp add: init_def Let_def ordered_newCandle)

text \<open>
  C6.  For a positive span the main loop returns after any sequence of lines, and
  every candle it has sent, every candle that is open in the map at that point,
  and so every candle of the output of \<open>process\<close>, has its low price at most its
  open and close prices and these at most its high price.  (A new candle has its
  four prices equal, \<open>ordered_newCandle\<close>; an update keeps the ordering,
  \<open>ordered_update_prices\<close>.)
\<close>

theorem candle_prices_ordered:
  assumes "0 < span"
  shows "\<exists>out st. loop span (init span line) rest = Some (out, st)
           \<and> process span (line # rest) = Some (out @ map snd (candles st))
           \<and> (\<forall>c\<in>set out. ordered c)
           \<and> (\<forall>c\<in>snd ` set (candles st). ordered c)
           \<and> (\<forall>c\<in>set (out @ map snd (candles st)). ordered c)"
proof -
  obtain out st where l: "loop span (init span line) rest = Some (out, st)"
    using loop_total [OF assms] by blast
  then have p: "process span (line # rest) = Some (out @ map snd (candles st))"
    by (simp add: process_def)
  from loop_ordered [OF l init_ordered]
  have o: "\<forall>c\<in>set out. ordered c" "\<forall>c\<in>snd ` set (candles st). ordered c" by simp_all
  then have "\<forall>c\<in>set (out @ map snd (candles st)). ordered c" by auto
  with l p o show ?thesis by blast
qed

text \<open>
  Four lines of one ticker with a span of five minutes: both candles of the output
  are ordered.
\<close>

theorem candle_prices_ordered_witness:
  "(0::int) < 5 * Minute
   \<and> process (5 * Minute)
       [tick ''AAPL'' (jan30 + clock 7 0 2) 16320, tick ''AAPL'' (jan30 + clock 7 0 9) 16288,
        tick ''AAPL'' (jan30 + clock 7 0 10) 16290, tick ''AAPL'' (jan30 + clock 7 7 33) 16148]
     = Some [\<lparr>Candle.Ticker = ''AAPL'', Start = jan30 + clock 7 0 0, PriceStart = 16320,
              PriceEnd = 16290, PriceMin = 16288, PriceMax = 16320\<rparr>,
             newCandle (jan30 + clock 7 5 0) ''AAPL'' 16148]
   \<and> ordered \<lparr>Candle.Ticker = ''AAPL'', Start = jan30 + clock 7 0 0, PriceStart = 16320,
              PriceEnd = 16290, PriceMin = 16288, PriceMax = 16320\<rparr>
   \<and> ordered (newCandle (jan30 + clock 7 5 0) ''AAPL'' 16148)"
proof -
  let ?input = "[tick ''AAPL'' (jan30 + clock 7 0 9) 16288,
        tick ''AAPL'' (jan30 + clock 7 0 10) 16290, tick ''AAPL'' (jan30 + clock 7 7 33) 16148]"
  let ?c1 = "\<lparr>Candle.Ticker = ''AAPL'', Start = jan30 + clock 7 0 0, PriceStart = 16320,
              PriceEnd = 16290, PriceMin = 16288, PriceMax = 16320\<rparr>"
  let ?c2 = "newCandle (jan30 + clock 7 5 0) ''AAPL'' 16148"
  have h: "(0::int) < 5 * Minute" by (simp add: Minute_def)
  have e: "process (5 * Minute) (tick ''AAPL'' (jan30 + clock 7 0 2) 16320 # ?input)
      = Some [?c1, ?c2]"
    by (simp add: run_simps)
  from candle_prices_ordered [OF h, of "tick ''AAPL'' (jan30 + clock 7 0 2) 16320" ?input]
  obtain out and st :: state where
    p: "process (5 * Minute) (tick ''AAPL'' (jan30 + clock 7 0 2) 16320 # ?input)
          = Some (out @ map snd (candles st))"
    and o: "\<forall>c\<in>set (out @ map snd (candles st)). ordered c"
    by blast
  from p e have "out @ map snd (candles st) = [?c1, ?c2]" by simp
  with o have "ordered ?c1 \<and> ordered ?c2" by simp
  with h e show ?thesis by blast
qed

section \<open>The candle of a ticker in one window\<close>

lemma foldl_update_prices:
  "foldl update_prices c ps =
     c\<lparr>PriceMin := Min (insert (PriceMin c) (set ps)),
       PriceMax := Max (insert (PriceMax c) (set ps)),
       PriceEnd := last (PriceEnd c # ps)\<rparr>"
proof (induction ps rule: rev_induct)
  case Nil
  show ?case by simp
next
  case (snoc p ps)
  have "Min (insert (PriceMin c) (insert p (set ps))) = min (Min (insert (PriceMin c) (set ps))) p"
    by (simp add: insert_commute [of _ p] min.commute)
  moreover
  have "Max (insert (PriceMax c) (insert p (set ps))) = max (Max (insert (PriceMax c) (set ps))) p"
    by (simp add: insert_commute [of _ p] max.commute)
  ultimately show ?case using snoc by (simp add: update_prices_def)
qed

lemma foldl_update_prices_ohlc:
  "foldl update_prices (newCandle l k p) ps = ohlc l k (p # ps)"
  by (simp add: foldl_update_prices) (simp add: newCandle_def ohlc_def)

lemma loop_in_window:
  assumes "\<forall>line\<in>set input. interval_l st \<le> Timestamp line \<and> Timestamp line < interval_r st"
  shows "loop span st input = Some ([], foldl aggregate st input)"
  using assms
proof (induction input arbitrary: st)
  case Nil
  show ?case by simp
next
  case (Cons line rest)
  then have s: "step span st line = Some ([], aggregate st line)"
    by (simp add: step_def)
  have "\<forall>x\<in>set rest. interval_l (aggregate st line) \<le> Timestamp x
          \<and> Timestamp x < interval_r (aggregate st line)"
    using Cons.prems by simp
  from Cons.IH [OF this] s show ?case by simp
qed

lemma foldl_aggregate_fields [simp]:
  "day (foldl aggregate st input) = day st"
  "interval_l (foldl aggregate st input) = interval_l st"
  "interval_r (foldl aggregate st input) = interval_r st"
  "interval_max (foldl aggregate st input) = interval_max st"
  by (induction input arbitrary: st) simp_all

lemma foldl_aggregate_lookup:
  "map_of (candles (foldl aggregate st input)) k =
     (case prices_of k input of
        [] \<Rightarrow> map_of (candles st) k
      | p # ps \<Rightarrow>
          Some (foldl update_prices
                  (case map_of (candles st) k of
                     None \<Rightarrow> newCandle (interval_l st) k p
                   | Some c \<Rightarrow> update_prices c p) ps))"
proof (induction input arbitrary: st)
  case Nil
  show ?case by (simp add: prices_of_def)
next
  case (Cons line rest)
  show ?case
  proof (cases "Line.Ticker line = k")
    case False
    then have m: "map_of (candles (aggregate st line)) k = map_of (candles st) k"
      by (simp add: aggregate_lookup)
    from Cons [of "aggregate st line"] show ?thesis
      unfolding m aggregate_fields using False by (simp add: prices_of_def)
  next
    case True
    then have p: "prices_of k (line # rest) = Price line # prices_of k rest"
      by (simp add: prices_of_def)
    let ?c = "case map_of (candles st) k of
                None \<Rightarrow> newCandle (interval_l st) k (Price line)
              | Some c \<Rightarrow> update_prices c (Price line)"
    have m: "map_of (candles (aggregate st line)) k = Some ?c"
      using True by (simp add: aggregate_lookup)
    have "map_of (candles (foldl aggregate (aggregate st line) rest)) k
            = Some (foldl update_prices ?c (prices_of k rest))"
      by (cases "prices_of k rest") (simp_all add: Cons [of "aggregate st line"] m)
    then show ?thesis by (simp add: p)
  qed
qed

lemma aggregate_key_set:
  "fst ` set (candles (aggregate st line)) = insert (Line.Ticker line) (fst ` set (candles st))"
  by (simp add: aggregate_def Let_def dom_update split: option.split)

lemma foldl_aggregate_keys:
  "fst ` set (candles (foldl aggregate st input))
     = fst ` set (candles st) \<union> Line.Ticker ` set input"
  by (induction input arbitrary: st) (simp_all add: aggregate_key_set)

lemma foldl_aggregate_distinct:
  "distinct (map fst (candles st)) \<Longrightarrow> distinct (map fst (candles (foldl aggregate st input)))"
  by (induction input arbitrary: st) (simp_all add: aggregate_keys)

lemma foldl_aggregate_summary:
  assumes "candles st = []"
  shows "summary (interval_l st) input (map snd (candles (foldl aggregate st input)))"
proof -
  let ?st = "foldl aggregate st input"
  have d: "distinct (map fst (candles ?st))"
    using assms by (simp add: foldl_aggregate_distinct)
  have entry: "c = ohlc (interval_l st) k (prices_of k input) \<and> Candle.Ticker c = k"
    if "(k, c) \<in> set (candles ?st)" for k c
  proof -
    from d that have m: "map_of (candles ?st) k = Some c" by (rule map_of_is_SomeI)
    show ?thesis
    proof (cases "prices_of k input")
      case Nil
      with m assms show ?thesis by (simp add: foldl_aggregate_lookup)
    next
      case (Cons p ps)
      with m assms have "c = ohlc (interval_l st) k (prices_of k input)"
        by (simp add: foldl_aggregate_lookup foldl_update_prices_ohlc)
      then show ?thesis by (simp add: ohlc_def)
    qed
  qed
  have keys: "map Candle.Ticker (map snd (candles ?st)) = map fst (candles ?st)"
    using entry by (auto simp add: map_eq_conv)
  have 1: "distinct (map Candle.Ticker (map snd (candles ?st)))"
    using d by (simp only: keys)
  have "set (map Candle.Ticker (map snd (candles ?st))) = Line.Ticker ` set input"
    using assms by (simp only: keys) (simp add: foldl_aggregate_keys)
  then have 2: "Candle.Ticker ` set (map snd (candles ?st)) = Line.Ticker ` set input"
    by (simp add: image_image)
  have 3: "\<forall>c\<in>set (map snd (candles ?st)).
             c = ohlc (interval_l st) (Candle.Ticker c) (prices_of (Candle.Ticker c) input)"
    using entry by auto
  from 1 2 3 show ?thesis unfolding summary_def by blast
qed

lemma loop_append:
  "loop span st (xs @ ys) =
     (case loop span st xs of
        None \<Rightarrow> None
      | Some (out1, st1) \<Rightarrow>
          (case loop span st1 ys of
             None \<Rightarrow> None
           | Some (out2, st2) \<Rightarrow> Some (out1 @ out2, st2)))"
  by (induction xs arbitrary: st) (auto split: option.splits)

lemma loop_segment:
  assumes "\<forall>line\<in>set seg. Timestamp line < interval_r st"
  shows "loop span st seg =
     Some ([], foldl aggregate st (filter (\<lambda>line. interval_l st \<le> Timestamp line) seg))"
  using assms
proof (induction seg arbitrary: st)
  case Nil
  show ?case by simp
next
  case (Cons line rest)
  show ?case
  proof (cases "Timestamp line < interval_l st")
    case True
    then have "step span st line = Some ([], st)" by (simp add: step_def)
    moreover from Cons.prems have "\<forall>x\<in>set rest. Timestamp x < interval_r st" by simp
    ultimately show ?thesis using True Cons.IH [of st] by simp
  next
    case False
    with Cons.prems have "step span st line = Some ([], aggregate st line)"
      by (simp add: step_def)
    moreover from Cons.prems
    have "\<forall>x\<in>set rest. Timestamp x < interval_r (aggregate st line)" by simp
    ultimately show ?thesis using False Cons.IH [of "aggregate st line"] by simp
  qed
qed

lemma step_closing:
  assumes "interval_l st \<le> Timestamp line" and "interval_r st \<le> Timestamp line"
    and "adjust span (Timestamp line) (st\<lparr>candles := []\<rparr>) = Some st1"
  shows "step span st line = Some (map snd (candles st), aggregate st1 line)"
  using assms by (auto simp add: step_def)

lemma loop_after_move:
  assumes "interval_l st \<le> Timestamp t0" and "interval_r st \<le> Timestamp t0"
    and "adjust span (Timestamp t0) (st\<lparr>candles := []\<rparr>) = Some st1"
    and "\<forall>line\<in>set seg. Timestamp line < interval_r st1"
  shows "loop span st (t0 # seg) =
     Some (map snd (candles st),
           foldl aggregate st1 (t0 # filter (\<lambda>line. interval_l st1 \<le> Timestamp line) seg))"
proof -
  have s: "step span st t0 = Some (map snd (candles st), aggregate st1 t0)"
    by (rule step_closing [OF assms(1,2,3)])
  from assms(4) have "\<forall>line\<in>set seg. Timestamp line < interval_r (aggregate st1 t0)"
    by simp
  from loop_segment [OF this, of span] s show ?thesis by simp
qed

lemma init_foldl:
  "init span first =
     foldl aggregate
       \<lparr>candles = [], day = midnight (Timestamp first),
        interval_l = midnight (Timestamp first) + TradesStart,
        interval_r = midnight (Timestamp first) + TradesStart + span,
        interval_max = midnight (Timestamp first) + TradesStart + TradesDuration\<rparr>
       (filter (\<lambda>line. midnight (Timestamp first) + TradesStart \<le> Timestamp line) [first])"
  by (simp add: init_def aggregate_def Let_def)


lemma process_Cons:
  "process span (first # rest) =
     (case loop span (init span first) rest of
        None \<Rightarrow> None
      | Some (out, st) \<Rightarrow> Some (out @ map snd (candles st)))"
  by (simp add: process_def)

lemma loop_closed:
  assumes "0 < span" and "interval_l st \<le> Timestamp t1" and "interval_r st \<le> Timestamp t1"
  shows "\<exists>out st1. loop span st (t1 # post) = Some (map snd (candles st) @ out, st1)"
proof -
  from step_beyond [OF assms] obtain st2 where
    s: "step span st t1 = Some (map snd (candles st), st2)" by blast
  from loop_total [OF assms(1), of st2 post] obtain out st1 where
    "loop span st2 post = Some (out, st1)" by blast
  with s show ?thesis by simp
qed

text \<open>
  C5, as the code has it.  Let a line \<open>t0\<close> close the window of a state that a run
  has reached, let \<open>[l, r)\<close> be the window the interval is then adjusted to, let
  \<open>t0\<close> lie in it, and let the lines \<open>seg\<close> that follow be before \<open>r\<close>.  Then the
  candles sent when the input ends there, and the candles sent by the flush of any
  line at or after \<open>r\<close> that follows \<open>seg\<close>, are, after the candles of the run so
  far and of the window that \<open>t0\<close> closed, the summary of \<open>t0\<close> and of the lines of
  \<open>seg\<close> that are not before \<open>l\<close>: for every ticker one candle with window start
  \<open>l\<close>, the first price as open, the last as close, the greatest as high and the
  least as low.  For the first window of a run, \<open>l\<close> being the session start of
  the day of the first line, the same holds of the first line and the lines that
  follow it before \<open>l + span\<close>; the first line is tested against \<open>l\<close> only.
\<close>

theorem window_flush_emits_summary:
  "(0 < span
    \<and> loop span (init span first) pre = Some (out0, st)
    \<and> interval_l st \<le> Timestamp t0 \<and> interval_r st \<le> Timestamp t0
    \<and> adjust span (Timestamp t0) (st\<lparr>candles := []\<rparr>) = Some st1
    \<and> interval_l st1 \<le> Timestamp t0 \<and> Timestamp t0 < interval_r st1
    \<and> (\<forall>line\<in>set seg. Timestamp line < interval_r st1)
    \<longrightarrow> (\<exists>flush.
          summary (interval_l st1)
            (t0 # filter (\<lambda>line. interval_l st1 \<le> Timestamp line) seg) flush
        \<and> process span (first # pre @ t0 # seg)
            = Some (out0 @ map snd (candles st) @ flush)
        \<and> (\<forall>t1 post. interval_r st1 \<le> Timestamp t1 \<longrightarrow>
              (\<exists>out1. process span (first # pre @ t0 # seg @ t1 # post)
                 = Some (out0 @ map snd (candles st) @ flush @ out1)))))
   \<and> (0 < span
      \<and> (\<forall>line\<in>set seg. Timestamp line < midnight (Timestamp first) + TradesStart + span)
      \<longrightarrow> (\<exists>flush.
            summary (midnight (Timestamp first) + TradesStart)
              (filter (\<lambda>line. midnight (Timestamp first) + TradesStart \<le> Timestamp line)
                 (first # seg)) flush
          \<and> process span (first # seg) = Some flush
          \<and> (\<forall>t1 post. midnight (Timestamp first) + TradesStart + span \<le> Timestamp t1 \<longrightarrow>
                (\<exists>out1. process span (first # seg @ t1 # post) = Some (flush @ out1)))))"
proof (intro conjI impI)
  assume a: "0 < span
    \<and> loop span (init span first) pre = Some (out0, st)
    \<and> interval_l st \<le> Timestamp t0 \<and> interval_r st \<le> Timestamp t0
    \<and> adjust span (Timestamp t0) (st\<lparr>candles := []\<rparr>) = Some st1
    \<and> interval_l st1 \<le> Timestamp t0 \<and> Timestamp t0 < interval_r st1
    \<and> (\<forall>line\<in>set seg. Timestamp line < interval_r st1)"
  let ?seg = "t0 # filter (\<lambda>line. interval_l st1 \<le> Timestamp line) seg"
  let ?st2 = "foldl aggregate st1 ?seg"
  let ?flush = "map snd (candles ?st2)"
  from a have span: "0 < span" and pre: "loop span (init span first) pre = Some (out0, st)"
    and adj: "adjust span (Timestamp t0) (st\<lparr>candles := []\<rparr>) = Some st1"
    and lr: "interval_l st1 \<le> Timestamp t0" "Timestamp t0 < interval_r st1"
    by simp_all
  from adjust_post [OF adj] have empty: "candles st1 = []" by simp
  have seg: "loop span st (t0 # seg) = Some (map snd (candles st), ?st2)"
    using a by (intro loop_after_move) simp_all
  have sum: "summary (interval_l st1) ?seg ?flush"
    by (rule foldl_aggregate_summary [OF empty])
  have run: "loop span (init span first) (pre @ t0 # seg)
      = Some (out0 @ map snd (candles st), ?st2)"
    using pre seg by (simp add: loop_append)
  then have p1: "process span (first # pre @ t0 # seg)
      = Some (out0 @ map snd (candles st) @ ?flush)"
    by (simp add: process_Cons)
  have p2: "\<exists>out1. process span (first # pre @ t0 # seg @ t1 # post)
                 = Some (out0 @ map snd (candles st) @ ?flush @ out1)"
    if t1: "interval_r st1 \<le> Timestamp t1" for t1 post
  proof -
    from lr t1 have "interval_l ?st2 \<le> Timestamp t1" "interval_r ?st2 \<le> Timestamp t1"
      by simp_all
    from loop_closed [OF span this, of post] obtain out st3 where
      c: "loop span ?st2 (t1 # post) = Some (?flush @ out, st3)" by blast
    have "pre @ t0 # seg @ t1 # post = (pre @ t0 # seg) @ t1 # post" by simp
    then have "loop span (init span first) (pre @ t0 # seg @ t1 # post)
        = Some ((out0 @ map snd (candles st)) @ ?flush @ out, st3)"
      using run c by (simp only: loop_append [of span _ "pre @ t0 # seg"]) simp
    then have "process span (first # pre @ t0 # seg @ t1 # post)
        = Some (out0 @ map snd (candles st) @ ?flush @ out @ map snd (candles st3))"
      by (simp add: process_Cons)
    then show ?thesis by blast
  qed
  from sum p1 p2 show "\<exists>flush.
          summary (interval_l st1) ?seg flush
        \<and> process span (first # pre @ t0 # seg)
            = Some (out0 @ map snd (candles st) @ flush)
        \<and> (\<forall>t1 post. interval_r st1 \<le> Timestamp t1 \<longrightarrow>
              (\<exists>out1. process span (first # pre @ t0 # seg @ t1 # post)
                 = Some (out0 @ map snd (candles st) @ flush @ out1)))"
    by blast
next
  let ?l = "midnight (Timestamp first) + TradesStart"
  let ?st0 = "\<lparr>candles = [], day = midnight (Timestamp first), interval_l = ?l,
               interval_r = ?l + span, interval_max = ?l + TradesDuration\<rparr>"
  let ?seg = "filter (\<lambda>line. ?l \<le> Timestamp line) (first # seg)"
  let ?st2 = "foldl aggregate ?st0 ?seg"
  let ?flush = "map snd (candles ?st2)"
  assume a: "0 < span \<and> (\<forall>line\<in>set seg. Timestamp line < ?l + span)"
  then have span: "0 < span" by simp
  have i: "init span first = foldl aggregate ?st0 (filter (\<lambda>line. ?l \<le> Timestamp line) [first])"
    by (rule init_foldl)
  have fields: "interval_l (init span first) = ?l" "interval_r (init span first) = ?l + span"
    by (simp_all add: i)
  from a have "\<forall>line\<in>set seg. Timestamp line < interval_r (init span first)"
    by (simp add: fields)
  from loop_segment [OF this, of span]
  have "loop span (init span first) seg
      = Some ([], foldl aggregate (init span first) (filter (\<lambda>line. ?l \<le> Timestamp line) seg))"
    by (simp only: fields)
  also have "foldl aggregate (init span first) (filter (\<lambda>line. ?l \<le> Timestamp line) seg) = ?st2"
    by (simp only: i foldl_append [symmetric] filter_append [symmetric]) simp
  finally have run: "loop span (init span first) seg = Some ([], ?st2)" .
  then have p1: "process span (first # seg) = Some ?flush" by (simp add: process_Cons)
  have sum: "summary ?l ?seg ?flush"
    using foldl_aggregate_summary [of ?st0 ?seg] by simp
  have p2: "\<exists>out1. process span (first # seg @ t1 # post) = Some (?flush @ out1)"
    if t1: "?l + span \<le> Timestamp t1" for t1 post
  proof -
    from span t1 have "interval_l ?st2 \<le> Timestamp t1" "interval_r ?st2 \<le> Timestamp t1"
      by simp_all
    from loop_closed [OF span this, of post] obtain out st3 where
      c: "loop span ?st2 (t1 # post) = Some (?flush @ out, st3)" by blast
    from run c have "loop span (init span first) (seg @ t1 # post) = Some (?flush @ out, st3)"
      by (simp add: loop_append)
    then have "process span (first # seg @ t1 # post)
        = Some (?flush @ out @ map snd (candles st3))"
      by (simp add: process_Cons)
    then show ?thesis by blast
  qed
  from sum p1 p2 show "\<exists>flush.
            summary ?l ?seg flush
          \<and> process span (first # seg) = Some flush
          \<and> (\<forall>t1 post. ?l + span \<le> Timestamp t1 \<longrightarrow>
                (\<exists>out1. process span (first # seg @ t1 # post) = Some (flush @ out1)))"
    by blast
qed

text \<open>
  C5 as it is stated, the window being any window of the partition of the session:
  with a span of thirty minutes, the only line of a run is at 12:40, in the window
  \<open>[12:30, 13:00)\<close>, the twelfth of its session; the candle of the output has the
  window start 07:00.
\<close>

theorem window_start_counterexample:
  "process (30 * Minute) [tick ''SBER'' (jan30 + clock 12 40 0) 21380]
     = Some [newCandle (jan30 + clock 7 0 0) ''SBER'' 21380]
   \<and> jan30 + clock 12 30 0
       = midnight (Timestamp (tick ''SBER'' (jan30 + clock 12 40 0) 21380)) + TradesStart
         + 11 * (30 * Minute)
   \<and> jan30 + clock 12 30 0 \<le> Timestamp (tick ''SBER'' (jan30 + clock 12 40 0) 21380)
   \<and> Timestamp (tick ''SBER'' (jan30 + clock 12 40 0) 21380)
       < jan30 + clock 12 30 0 + 30 * Minute
   \<and> Start (newCandle (jan30 + clock 7 0 0) ''SBER'' 21380) \<noteq> jan30 + clock 12 30 0"
  by (simp add: run_simps)

text \<open>
  The example of C5 twice: in the window of 07:05, which the line at 07:07:33 moves
  the aggregator to and the line at 07:12:00 closes, with lines of a second ticker
  in between; and in the first window, to the end of the input.  The prices 16320,
  16288 and 16290 give open 16320, high 16320, low 16288 and close 16290.
\<close>

theorem window_flush_emits_summary_witness:
  "process (5 * Minute)
     [tick ''SBER'' (jan30 + clock 7 0 1) 21380, tick ''AAPL'' (jan30 + clock 7 7 33) 16320,
      tick ''AAPL'' (jan30 + clock 7 8 0) 16288, tick ''SBER'' (jan30 + clock 7 8 30) 21390,
      tick ''AAPL'' (jan30 + clock 7 9 0) 16290, tick ''AAPL'' (jan30 + clock 7 12 0) 16148]
    = Some [newCandle (jan30 + clock 7 0 0) ''SBER'' 21380,
            \<lparr>Candle.Ticker = ''AAPL'', Start = jan30 + clock 7 5 0, PriceStart = 16320,
             PriceEnd = 16290, PriceMin = 16288, PriceMax = 16320\<rparr>,
            newCandle (jan30 + clock 7 5 0) ''SBER'' 21390,
            newCandle (jan30 + clock 7 10 0) ''AAPL'' 16148]
   \<and> \<lparr>Candle.Ticker = ''AAPL'', Start = jan30 + clock 7 5 0, PriceStart = 16320,
       PriceEnd = 16290, PriceMin = 16288, PriceMax = 16320\<rparr>
     = ohlc (jan30 + clock 7 5 0) ''AAPL'' [16320, 16288, 16290]
   \<and> process (5 * Minute)
       [tick ''AAPL'' (jan30 + clock 7 0 2) 16320, tick ''AAPL'' (jan30 + clock 7 0 9) 16288,
        tick ''AAPL'' (jan30 + clock 7 0 10) 16290]
     = Some [\<lparr>Candle.Ticker = ''AAPL'', Start = jan30 + clock 7 0 0, PriceStart = 16320,
              PriceEnd = 16290, PriceMin = 16288, PriceMax = 16320\<rparr>]
   \<and> \<lparr>Candle.Ticker = ''AAPL'', Start = jan30 + clock 7 0 0, PriceStart = 16320,
       PriceEnd = 16290, PriceMin = 16288, PriceMax = 16320\<rparr>
     = ohlc (jan30 + clock 7 0 0) ''AAPL'' [16320, 16288, 16290]"
proof -
  let ?span = "5 * Minute"
  let ?first = "tick ''SBER'' (jan30 + clock 7 0 1) 21380"
  let ?t0 = "tick ''AAPL'' (jan30 + clock 7 7 33) 16320"
  let ?seg = "[tick ''AAPL'' (jan30 + clock 7 8 0) 16288,
    tick ''SBER'' (jan30 + clock 7 8 30) 21390, tick ''AAPL'' (jan30 + clock 7 9 0) 16290]"
  let ?t1 = "tick ''AAPL'' (jan30 + clock 7 12 0) 16148"
  let ?st = "init ?span ?first"
  let ?st1 = "\<lparr>candles = [], day = jan30, interval_l = jan30 + clock 7 5 0,
    interval_r = jan30 + clock 7 10 0, interval_max = jan30 + clock 24 0 0\<rparr>"
  let ?ca = "\<lparr>Candle.Ticker = ''AAPL'', Start = jan30 + clock 7 5 0, PriceStart = 16320,
             PriceEnd = 16290, PriceMin = 16288, PriceMax = 16320\<rparr>"
  let ?cz = "newCandle (jan30 + clock 7 0 0) ''SBER'' 21380"
  let ?cs = "newCandle (jan30 + clock 7 5 0) ''SBER'' 21390"
  let ?c2 = "newCandle (jan30 + clock 7 10 0) ''AAPL'' 16148"
  have h: "0 < ?span
    \<and> loop ?span (init ?span ?first) [] = Some ([], ?st)
    \<and> interval_l ?st \<le> Timestamp ?t0 \<and> interval_r ?st \<le> Timestamp ?t0
    \<and> adjust ?span (Timestamp ?t0) (?st\<lparr>candles := []\<rparr>) = Some ?st1
    \<and> interval_l ?st1 \<le> Timestamp ?t0 \<and> Timestamp ?t0 < interval_r ?st1
    \<and> (\<forall>line\<in>set ?seg. Timestamp line < interval_r ?st1)"
    by (simp add: run_simps)
  have e1: "process ?span (?first # [] @ ?t0 # ?seg) = Some [?cz, ?ca, ?cs]"
    by (simp add: run_simps)
  have e2: "process ?span (?first # [] @ ?t0 # ?seg @ ?t1 # []) = Some [?cz, ?ca, ?cs, ?c2]"
    by (simp add: run_simps)
  have c0: "map snd (candles ?st) = [?cz]" by (simp add: run_simps)
  from mp [OF conjunct1 [OF window_flush_emits_summary [where span = ?span
        and first = ?first and pre = "[]" and ?out0.0 = "[]" and st = ?st and ?t0.0 = ?t0
        and ?st1.0 = ?st1 and seg = ?seg]] h]
  obtain flush where
    s: "summary (interval_l ?st1)
          (?t0 # filter (\<lambda>line. interval_l ?st1 \<le> Timestamp line) ?seg) flush"
    and p: "process ?span (?first # [] @ ?t0 # ?seg) = Some ([] @ map snd (candles ?st) @ flush)"
    by blast
  from trans [OF p [symmetric] e1] have "map snd (candles ?st) @ flush = [?cz, ?ca, ?cs]"
    by simp
  then have f: "flush = [?ca, ?cs]" unfolding c0 by simp
  from s have "?ca = ohlc (jan30 + clock 7 5 0) ''AAPL''
      (prices_of ''AAPL'' (?t0 # filter (\<lambda>line. interval_l ?st1 \<le> Timestamp line) ?seg))"
    unfolding f by (simp add: summary_def)
  moreover have "prices_of ''AAPL''
      (?t0 # filter (\<lambda>line. interval_l ?st1 \<le> Timestamp line) ?seg) = [16320, 16288, 16290]"
    by (simp add: prices_of_def run_simps)
  ultimately have o1: "?ca = ohlc (jan30 + clock 7 5 0) ''AAPL'' [16320, 16288, 16290]"
    by simp
  let ?f2 = "tick ''AAPL'' (jan30 + clock 7 0 2) 16320"
  let ?seg2 = "[tick ''AAPL'' (jan30 + clock 7 0 9) 16288,
    tick ''AAPL'' (jan30 + clock 7 0 10) 16290]"
  let ?c = "\<lparr>Candle.Ticker = ''AAPL'', Start = jan30 + clock 7 0 0, PriceStart = 16320,
       PriceEnd = 16290, PriceMin = 16288, PriceMax = 16320\<rparr>"
  let ?l = "midnight (Timestamp ?f2) + TradesStart"
  have h2: "0 < ?span \<and> (\<forall>line\<in>set ?seg2. Timestamp line < ?l + ?span)"
    by (simp add: run_simps)
  have e3: "process ?span (?f2 # ?seg2) = Some [?c]" by (simp add: run_simps)
  from mp [OF conjunct2 [OF window_flush_emits_summary [where span = ?span
        and first = ?f2 and seg = ?seg2]] h2]
  obtain flush2 where
    s2: "summary ?l (filter (\<lambda>line. ?l \<le> Timestamp line) (?f2 # ?seg2)) flush2"
    and p2: "process ?span (?f2 # ?seg2) = Some flush2"
    by blast
  from trans [OF p2 [symmetric] e3] have f2: "flush2 = [?c]" by simp
  have l: "?l = jan30 + clock 7 0 0" by (simp add: run_simps)
  from s2 have "?c = ohlc ?l ''AAPL''
      (prices_of ''AAPL'' (filter (\<lambda>line. ?l \<le> Timestamp line) (?f2 # ?seg2)))"
    unfolding f2 by (simp add: summary_def)
  moreover have "prices_of ''AAPL'' (filter (\<lambda>line. ?l \<le> Timestamp line) (?f2 # ?seg2))
      = [16320, 16288, 16290]"
    by (simp add: prices_of_def run_simps)
  ultimately have o2: "?c = ohlc (jan30 + clock 7 0 0) ''AAPL'' [16320, 16288, 16290]"
    unfolding l by simp
  have e2': "process ?span [?first, ?t0, tick ''AAPL'' (jan30 + clock 7 8 0) 16288,
      tick ''SBER'' (jan30 + clock 7 8 30) 21390, tick ''AAPL'' (jan30 + clock 7 9 0) 16290, ?t1]
    = Some [?cz, ?ca, ?cs, ?c2]"
    using e2 by simp
  have e3': "process ?span [?f2, tick ''AAPL'' (jan30 + clock 7 0 9) 16288,
        tick ''AAPL'' (jan30 + clock 7 0 10) 16290] = Some [?c]"
    using e3 by simp
  show ?thesis by (intro conjI e2' o1 e3' o2)
qed

section \<open>Reading and writing decimal numerals\<close>

lemma digit_char:
  assumes "(n::nat) < 10"
  shows "is_digit (char_of (48 + n))" and "digit_value (char_of (48 + n)) = n"
  using assms by (simp_all add: is_digit_def digit_value_def)

lemma not_digit [simp]:
  "\<not> is_digit CHR ''.''" "\<not> is_digit CHR ''-''" "\<not> is_digit CHR ''+''"
  by (simp_all add: is_digit_def)

lemma is_digit_0 [simp]: "is_digit CHR ''0''" "digit_value CHR ''0'' = 0"
  by (simp_all add: is_digit_def digit_value_def)

lemma foldl_digit_mono:
  "(n::nat) \<le> foldl (\<lambda>a c. a * 10 + digit_value c) n s"
proof (induction s arbitrary: n)
  case Nil
  show ?case by simp
next
  case (Cons c cs)
  have "n \<le> n * 10 + digit_value c" by simp
  also have "\<dots> \<le> foldl (\<lambda>a c. a * 10 + digit_value c) (n * 10 + digit_value c) cs"
    by (rule Cons)
  finally show ?case by simp
qed

lemma ParseUint_loop_digits:
  assumes "list_all is_digit s" and "n \<le> maxUint64"
  shows "ParseUint_loop n s =
     (if foldl (\<lambda>a c. a * 10 + digit_value c) n s \<le> maxUint64
      then Inr (foldl (\<lambda>a c. a * 10 + digit_value c) n s) else Inl ErrRange)"
  using assms
proof (induction s arbitrary: n)
  case Nil
  then show ?case by simp
next
  case (Cons c cs)
  let ?n1 = "n * 10 + digit_value c"
  let ?v = "foldl (\<lambda>a c. a * 10 + digit_value c) ?n1 cs"
  from Cons.prems have d: "is_digit c" and ds: "list_all is_digit cs" by simp_all
  have mono: "?n1 \<le> ?v" by (rule foldl_digit_mono)
  show ?case
  proof (cases "n \<ge> maxUint64 div 10 + 1")
    case True
    then have "?n1 > maxUint64" by (simp add: maxUint64_def)
    with mono have "?v > maxUint64" by simp
    with True d show ?thesis by simp
  next
    case small: False
    show ?thesis
    proof (cases "?n1 > maxUint64")
      case True
      with mono have "?v > maxUint64" by simp
      with True small d show ?thesis by (simp add: Let_def)
    next
      case False
      then have "?n1 \<le> maxUint64" by simp
      from Cons.IH [OF ds this] False small d show ?thesis by (simp add: Let_def)
    qed
  qed
qed

lemma ParseUint_loop_not_digits:
  assumes "\<not> list_all is_digit s"
  shows "isl (ParseUint_loop n s)"
  using assms by (induction s arbitrary: n) (auto simp add: Let_def)

lemma ParseUint_decimal:
  "ParseUint s =
     (if s = [] then Inl ErrSyntax
      else if \<not> list_all is_digit s then ParseUint s
      else if digits_value s \<le> maxUint64 then Inr (digits_value s) else Inl ErrRange)"
  by (simp add: ParseUint_def ParseUint_loop_digits digits_value_def maxUint64_def)

lemma ParseUint_fail:
  "s = [] \<or> \<not> list_all is_digit s \<Longrightarrow> isl (ParseUint s)"
  by (auto simp add: ParseUint_def ParseUint_loop_not_digits)

lemma ParseInt_decimal_Some:
  assumes "decimal s = Some v"
  shows "ParseInt s = Inr v"
proof -
  from assms have dec: "is_decimal s" and rng: "in_int64 (decimal_value s)"
    and v: "v = decimal_value s"
    by (auto simp add: decimal_def split: if_splits)
  from dec have ne: "s \<noteq> []" by (auto simp add: is_decimal_def unsigned_part_def)
  let ?u = "unsigned_part s"
  from dec have u: "?u \<noteq> []" "list_all is_digit ?u" by (simp_all add: is_decimal_def)
  have s1: "(if hd s = CHR ''+'' \<or> hd s = CHR ''-'' then tl s else s) = ?u"
    using ne by (simp add: unsigned_part_def)
  from rng have "digits_value ?u \<le> maxUint64"
    by (auto simp add: in_int64_def decimal_value_def maxUint64_def split: if_splits)
  with u have pu: "ParseUint ?u = Inr (digits_value ?u)"
    by (subst ParseUint_decimal) simp
  show ?thesis
    using ne rng v pu
    unfolding ParseInt_def Let_def s1
    by (auto simp add: in_int64_def decimal_value_def split: if_splits)
qed

lemma ParseInt_decimal_None:
  assumes "decimal s = None"
  shows "isl (ParseInt s)"
proof (cases "s = []")
  case True
  then show ?thesis by (simp add: ParseInt_def)
next
  case ne: False
  let ?u = "unsigned_part s"
  have s1: "(if hd s = CHR ''+'' \<or> hd s = CHR ''-'' then tl s else s) = ?u"
    using ne by (simp add: unsigned_part_def)
  show ?thesis
  proof (cases "is_decimal s")
    case False
    then have "isl (ParseUint ?u)"
      by (intro ParseUint_fail) (auto simp add: is_decimal_def)
    then show ?thesis using ne unfolding ParseInt_def Let_def s1
      by (auto split: sum.splits error.splits)
  next
    case True
    with assms have rng: "\<not> in_int64 (decimal_value s)"
      by (simp add: decimal_def split: if_splits)
    from True have u: "?u \<noteq> []" "list_all is_digit ?u" by (simp_all add: is_decimal_def)
    then have pu: "ParseUint ?u =
        (if digits_value ?u \<le> maxUint64 then Inr (digits_value ?u) else Inl ErrRange)"
      by (subst ParseUint_decimal) simp
    show ?thesis
      using ne rng unfolding ParseInt_def Let_def s1 pu
      by (auto simp add: in_int64_def decimal_value_def split: if_splits)
  qed
qed

lemma digits_all_digits: "list_all is_digit (digits n)"
proof (induction n rule: digits.induct)
  case (1 n)
  show ?case
  proof (cases "n < 10")
    case True
    then show ?thesis by (subst digits.simps) (simp add: digit_char)
  next
    case False
    then have "n mod 10 < 10" by simp
    with False 1 show ?thesis by (subst digits.simps) (simp add: digit_char)
  qed
qed

lemma digits_nonempty [simp]: "digits n \<noteq> []"
  by (subst digits.simps) simp

lemma digits_value_snoc: "digits_value (s @ [c]) = digits_value s * 10 + digit_value c"
  by (simp add: digits_value_def)

lemma digits_value_digits: "digits_value (digits n) = n"
proof (induction n rule: digits.induct)
  case (1 n)
  show ?case
  proof (cases "n < 10")
    case True
    then show ?thesis by (subst digits.simps) (simp add: digits_value_def digit_char)
  next
    case False
    then have "digits_value (digits (n div 10)) = n div 10" by (rule 1)
    moreover have "n mod 10 < 10" by simp
    ultimately show ?thesis using False
      by (subst digits.simps) (simp add: digits_value_snoc digit_char)
  qed
qed

lemma length_digits_one: "length (digits n) = Suc 0 \<longleftrightarrow> n < 10"
proof (cases "n < 10")
  case True
  then show ?thesis by (subst digits.simps) simp
next
  case False
  then show ?thesis by (subst digits.simps) simp
qed

lemma hd_digits_digit: "is_digit (hd (digits n))"
  using digits_all_digits [of n] digits_nonempty [of n]
  by (cases "digits n") simp_all

lemma decimal_digits:
  assumes "int n < 2 ^ 63"
  shows "decimal (digits n) = Some (int n)"
proof -
  have h: "hd (digits n) \<noteq> CHR ''+''" "hd (digits n) \<noteq> CHR ''-''"
    using hd_digits_digit [of n] by auto
  then have u: "unsigned_part (digits n) = digits n" by (simp add: unsigned_part_def)
  have "is_decimal (digits n)" by (simp add: is_decimal_def u digits_all_digits)
  moreover have "decimal_value (digits n) = int n"
    using h by (simp add: decimal_value_def u digits_value_digits)
  ultimately show ?thesis using assms by (simp add: decimal_def in_int64_def)
qed

lemma decimal_itoa:
  assumes "0 \<le> i" and "i < 2 ^ 63"
  shows "decimal (itoa i) = Some i"
  using assms decimal_digits [of "nat i"] by (simp add: itoa_def)

lemma dot_notin_digits: "CHR ''.'' \<notin> set (digits n)"
  using digits_all_digits [of n] by (auto simp add: list_all_iff)

lemma SplitN2_no_sep: "sep \<notin> set s \<Longrightarrow> SplitN2 sep s = [s]"
  by (simp add: SplitN2_def)

lemma SplitN2_sep:
  assumes "sep \<notin> set w"
  shows "SplitN2 sep (w @ sep # f) = [w, f]"
proof -
  from assms have "takeWhile (\<lambda>c. c \<noteq> sep) (w @ sep # f) = w"
    by (induction w) auto
  moreover from assms have "dropWhile (\<lambda>c. c \<noteq> sep) (w @ sep # f) = sep # f"
    by (induction w) auto
  ultimately show ?thesis by (simp add: SplitN2_def)
qed

lemma wrap64_id: "in_int64 v \<Longrightarrow> wrap64 v = v"
  by (simp add: wrap64_def in_int64_def)

lemma wrap64_add: "wrap64 (wrap64 a + b) = wrap64 (a + b)"
proof -
  have "(wrap64 a + b + 2 ^ 63) mod 2 ^ 64 = (a + b + 2 ^ 63) mod 2 ^ 64"
    unfolding wrap64_def by (simp add: mod_simps algebra_simps)
  then show ?thesis by (simp add: wrap64_def)
qed

lemma parsePrice_whole:
  assumes "CHR ''.'' \<notin> set w"
  shows "parsePrice w = (case ParseInt w of Inl err \<Rightarrow> Inl err | Inr i \<Rightarrow> Inr (wrap64 (i * 100)))"
  using assms by (simp add: parsePrice_def SplitN2_no_sep Let_def cong: sum.case_cong)

lemma parsePrice_point:
  assumes "CHR ''.'' \<notin> set w"
  shows "parsePrice (w @ CHR ''.'' # f) =
     (case ParseInt w of
        Inl err \<Rightarrow> Inl err
      | Inr i \<Rightarrow> (case ParseInt (pad f) of
                   Inl err \<Rightarrow> Inl err
                 | Inr j \<Rightarrow> Inr (wrap64 (i * 100 + j))))"
  using assms
  by (simp add: parsePrice_def SplitN2_sep Let_def pad_def wrap64_add
      cong: sum.case_cong split: sum.split)

lemma decimal_digit_string:
  assumes "s \<noteq> []" and "list_all is_digit s" and "int (digits_value s) < 2 ^ 63"
  shows "decimal s = Some (int (digits_value s))"
proof -
  from assms(1,2) have "is_digit (hd s)" by (cases s) simp_all
  then have h: "hd s \<noteq> CHR ''+''" "hd s \<noteq> CHR ''-''" by auto
  then have u: "unsigned_part s = s" by (simp add: unsigned_part_def)
  have "is_decimal s" using assms by (simp add: is_decimal_def u)
  moreover have "decimal_value s = int (digits_value s)"
    using h by (simp add: decimal_value_def u)
  ultimately show ?thesis using assms(3) by (simp add: decimal_def in_int64_def)
qed

lemma ParseInt_itoa:
  assumes "0 \<le> i" and "i < 2 ^ 63"
  shows "ParseInt (itoa i) = Inr i"
  by (rule ParseInt_decimal_Some) (rule decimal_itoa [OF assms])

lemma ParseInt_digit_padded:
  assumes "0 \<le> d" and "d < 10"
  shows "ParseInt (pad (itoa d)) = Inr (d * 10)"
proof -
  from assms have n: "nat d < 10" by simp
  then have p: "pad (itoa d) = digits (nat d) @ ''0''"
    using assms by (simp add: pad_def itoa_def length_digits_one)
  have v: "digits_value (digits (nat d) @ ''0'') = nat d * 10"
    by (simp add: digits_value_snoc digits_value_digits)
  have "decimal (digits (nat d) @ ''0'') = Some (int (digits_value (digits (nat d) @ ''0'')))"
    using n assms by (intro decimal_digit_string) (simp_all add: digits_all_digits v)
  with assms have "decimal (pad (itoa d)) = Some (d * 10)" by (simp add: p v)
  then show ?thesis by (rule ParseInt_decimal_Some)
qed

lemma ParseInt_two_digits:
  assumes "10 \<le> r" and "r < 2 ^ 63"
  shows "ParseInt (pad (itoa r)) = Inr r"
proof -
  from assms have "pad (itoa r) = itoa r"
    by (simp add: pad_def itoa_def length_digits_one)
  with assms show ?thesis by (simp add: ParseInt_itoa)
qed

lemma dot_notin_itoa: "CHR ''.'' \<notin> set (itoa i)"
  by (simp add: itoa_def dot_notin_digits)

lemma sdiv_smod_nonneg:
  assumes "(0::int) \<le> a" and "0 < b"
  shows "a sdiv b = a div b" and "a smod b = a mod b"
  using assms by (simp_all add: signed_divide_int_def signed_modulo_int_def sgn_if)

lemma formatPrice_nonneg:
  assumes "0 \<le> p"
  shows "formatPrice p =
     (if p mod 100 = 0 then itoa (p div 100)
      else if p mod 10 = 0 then itoa (p div 100) @ ''.'' @ itoa (p mod 100 div 10)
      else itoa (p div 100) @ ''.'' @ itoa (p mod 100))"
proof -
  have r: "0 \<le> p mod 100" by simp
  have m: "p mod 100 mod 10 = p mod 10" by (simp add: mod_mod_cancel)
  show ?thesis
    using assms r
    by (auto simp add: formatPrice_def Let_def sdiv_smod_nonneg m less_le)
qed

lemma formatPrice_neg:
  assumes "p < 0"
  shows "formatPrice p = itoa (p sdiv 100)"
proof -
  have "0 \<le> \<bar>p\<bar> mod 100" by simp
  with assms have "p smod 100 \<le> 0" by (simp add: signed_modulo_int_def sgn_if)
  then show ?thesis by (simp add: formatPrice_def Let_def)
qed

lemma wrap64_shift:
  assumes "0 < k" and "k < 2 ^ 64"
  shows "wrap64 (x + k) \<noteq> wrap64 x"
proof
  assume "wrap64 (x + k) = wrap64 x"
  then have "(x + k + 2 ^ 63) mod 2 ^ 64 = (x + 2 ^ 63) mod 2 ^ 64"
    by (simp add: wrap64_def)
  then have "(2 ^ 64 :: int) dvd (x + k + 2 ^ 63) - (x + 2 ^ 63)"
    by (simp only: mod_eq_dvd_iff)
  then have "(2 ^ 64 :: int) dvd k" by simp
  from zdvd_imp_le [OF this assms(1)] assms(2) show False by simp
qed

section \<open>The round trip of a price\<close>

lemma parse_format_nonneg:
  assumes "0 \<le> x" and "x < 2 ^ 63"
  shows "parsePrice (formatPrice x) =
     Inr (if 1 \<le> x mod 100 \<and> x mod 100 \<le> 9 then wrap64 (x + 9 * (x mod 100)) else x)"
proof -
  let ?q = "x div 100" and ?r = "x mod 100"
  have q: "0 \<le> ?q" "?q < 2 ^ 63" using assms by simp_all
  have r: "0 \<le> ?r" "?r < 100" by simp_all
  have x: "?q * 100 + ?r = x" by simp
  have pq: "ParseInt (itoa ?q) = Inr ?q" by (rule ParseInt_itoa [OF q])
  have wx: "wrap64 x = x" using assms by (simp add: wrap64_id in_int64_def)
  show ?thesis
  proof (cases "?r = 0")
    case True
    then have f: "formatPrice x = itoa ?q" using assms(1) by (simp add: formatPrice_nonneg)
    from True x have "?q * 100 = x" by linarith
    with pq wx have "parsePrice (formatPrice x) = Inr x"
      by (simp add: f parsePrice_whole dot_notin_itoa)
    with True show ?thesis by simp
  next
    case r0: False
    show ?thesis
    proof (cases "x mod 10 = 0")
      case True
      let ?d = "?r div 10"
      have d: "0 \<le> ?d" "?d < 10" using r by simp_all
      from True have "?r mod 10 = 0" by (simp add: mod_mod_cancel)
      then have rd: "?r = ?d * 10" by presburger
      with r0 have big: "\<not> (1 \<le> ?r \<and> ?r \<le> 9)" by presburger
      have f: "formatPrice x = itoa ?q @ CHR ''.'' # itoa ?d"
        using assms(1) r0 True by (simp add: formatPrice_nonneg)
      have "?q * 100 + ?d * 10 = x" using rd x by linarith
      with pq wx ParseInt_digit_padded [OF d]
      have res: "parsePrice (formatPrice x) = Inr x"
        by (simp add: f parsePrice_point dot_notin_itoa)
      show ?thesis unfolding if_not_P [OF big] by (rule res)
    next
      case False
      have f: "formatPrice x = itoa ?q @ CHR ''.'' # itoa ?r"
        using assms(1) r0 False by (simp add: formatPrice_nonneg)
      show ?thesis
      proof (cases "10 \<le> ?r")
        case True
        then have "ParseInt (pad (itoa ?r)) = Inr ?r"
          by (rule ParseInt_two_digits) (use r in simp)
        with pq wx x have res: "parsePrice (formatPrice x) = Inr x"
          by (simp add: f parsePrice_point dot_notin_itoa)
        from True have big: "\<not> (1 \<le> ?r \<and> ?r \<le> 9)" by simp
        show ?thesis unfolding if_not_P [OF big] by (rule res)
      next
        case small: False
        with r0 r have s: "1 \<le> ?r \<and> ?r \<le> 9" by simp
        then have pp: "ParseInt (pad (itoa ?r)) = Inr (?r * 10)"
          by (intro ParseInt_digit_padded) simp_all
        have e: "?q * 100 + ?r * 10 = x + 9 * ?r" using x by linarith
        have res: "parsePrice (formatPrice x) = Inr (wrap64 (x + 9 * ?r))"
          by (simp add: f parsePrice_point dot_notin_itoa pq pp e)
        show ?thesis unfolding if_P [OF s] by (rule res)
      qed
    qed
  qed
qed

text \<open>
  C7.  For a price \<open>x\<close> with \<open>0 \<le> x\<close> (and within Go's \<^verbatim>\<open>int\<close>): when the remainder of
  \<open>x\<close> by 100 is 0 or at least 10, parsing the formatted price gives \<open>x\<close> back; when
  the remainder is between 1 and 9, the formatted price has the remainder as its
  only fractional digit, which is parsed as tens of cents, so the result is
  \<open>x\<close> plus nine times the remainder (reduced to 64 bits) and differs from \<open>x\<close>.
\<close>

theorem price_round_trip:
  assumes "0 \<le> x" and "x < 2 ^ 63"
  shows "(x mod 100 = 0 \<or> 10 \<le> x mod 100 \<longrightarrow> parsePrice (formatPrice x) = Inr x)
       \<and> (1 \<le> x mod 100 \<and> x mod 100 \<le> 9 \<longrightarrow>
            formatPrice x = itoa (x div 100) @ ''.'' @ itoa (x mod 100)
          \<and> parsePrice (formatPrice x) = Inr (wrap64 (x + 9 * (x mod 100)))
          \<and> parsePrice (formatPrice x) \<noteq> Inr x)"
proof (intro conjI impI)
  assume "x mod 100 = 0 \<or> 10 \<le> x mod 100"
  then have neg: "\<not> (1 \<le> x mod 100 \<and> x mod 100 \<le> 9)" by auto
  show "parsePrice (formatPrice x) = Inr x"
    using parse_format_nonneg [OF assms] by (simp only: if_not_P [OF neg])
next
  assume s: "1 \<le> x mod 100 \<and> x mod 100 \<le> 9"
  then have "x mod 100 \<noteq> 0" "x mod 100 mod 10 \<noteq> 0" by simp_all
  then have "x mod 10 \<noteq> 0" by (simp add: mod_mod_cancel)
  with s assms(1) show "formatPrice x = itoa (x div 100) @ ''.'' @ itoa (x mod 100)"
    by (simp add: formatPrice_nonneg)
  from s show p: "parsePrice (formatPrice x) = Inr (wrap64 (x + 9 * (x mod 100)))"
    using parse_format_nonneg [OF assms] by simp
  from s have "0 < 9 * (x mod 100)" "9 * (x mod 100) < 2 ^ 64" by simp_all
  from wrap64_shift [OF this, of x] assms
  have "wrap64 (x + 9 * (x mod 100)) \<noteq> x" by (simp add: wrap64_id in_int64_def)
  with p show "parsePrice (formatPrice x) \<noteq> Inr x" by simp
qed

text \<open>
  The instances 21382, 21380 and 21300, and 21305, which is written \<open>213.5\<close> and read
  back as 21350.
\<close>

theorem price_round_trip_witness:
  "parsePrice (formatPrice 21382) = Inr 21382
   \<and> parsePrice (formatPrice 21380) = Inr 21380
   \<and> parsePrice (formatPrice 21300) = Inr 21300
   \<and> formatPrice 21305 = ''213.5''
   \<and> parsePrice (formatPrice 21305) = Inr 21350
   \<and> parsePrice (formatPrice 21305) \<noteq> Inr 21305"
proof -
  have a: "parsePrice (formatPrice 21382) = Inr 21382"
    using price_round_trip [of 21382] by simp
  have b: "parsePrice (formatPrice 21380) = Inr 21380"
    using price_round_trip [of 21380] by simp
  have c: "parsePrice (formatPrice 21300) = Inr 21300"
    using price_round_trip [of 21300] by simp
  have h: "(0::int) \<le> 21305" "(21305::int) < 2 ^ 63"
    "1 \<le> (21305::int) mod 100 \<and> (21305::int) mod 100 \<le> 9"
    by simp_all
  from mp [OF conjunct2 [OF price_round_trip [OF h(1,2)]] h(3)]
  have f: "formatPrice 21305 = itoa (21305 div 100) @ ''.'' @ itoa (21305 mod 100)"
    and p: "parsePrice (formatPrice 21305) = Inr (wrap64 (21305 + 9 * (21305 mod 100)))"
    and n: "parsePrice (formatPrice 21305) \<noteq> Inr 21305"
    by blast+
  have i: "itoa (21305 div 100) @ ''.'' @ itoa (21305 mod 100) = ''213.5''"
    by code_simp
  have w: "wrap64 (21305 + 9 * (21305 mod 100)) = 21350"
    by (simp add: wrap64_def)
  have d: "formatPrice 21305 = ''213.5''"
    "parsePrice (formatPrice 21305) = Inr 21350"
    "parsePrice (formatPrice 21305) \<noteq> Inr 21305"
    using f p n unfolding i w by blast+
  from a b c d show ?thesis by blast
qed

section \<open>What the price codec reads and writes\<close>

lemma hd_digits_nonzero:
  assumes "0 < n"
  shows "hd (digits n) \<noteq> CHR ''0''"
  using assms
proof (induction n rule: digits.induct)
  case (1 n)
  show ?case
  proof (cases "n < 10")
    case True
    with 1(2) have "digit_value (char_of (48 + n)) \<noteq> digit_value CHR ''0''"
      by (simp add: digit_char)
    then have "char_of (48 + n) \<noteq> CHR ''0''" by auto
    with True show ?thesis by (subst digits.simps) simp
  next
    case False
    then have "0 < n div 10" by simp
    with False 1(1) have "hd (digits (n div 10)) \<noteq> CHR ''0''" by simp
    with False show ?thesis by (subst digits.simps) simp
  qed
qed

text \<open>
  C8, as the code has it.  \<open>parsePrice\<close> splits its input at the first point.  When
  the text before it is a decimal numeral \<open>i\<close> within Go's \<^verbatim>\<open>int\<close> (\<open>decimal\<close>), the
  result without a point is \<open>i * 100\<close>, and with a point, when the text after it,
  a single byte padded with a zero, is a decimal numeral \<open>j\<close>, the result is
  \<open>i * 100 + j\<close>; both reduced to 64 bits, which changes nothing when the sum is
  within \<^verbatim>\<open>int\<close>.  When the text before the point, or the padded text after it,
  is not such a numeral, \<open>parsePrice\<close> fails.  For \<open>0 \<le> p\<close>, \<open>formatPrice\<close> writes
  \<open>p div 100\<close> alone when the remainder of \<open>p\<close> by 100 is 0, \<open>p div 100\<close>, a point
  and the single digit \<open>p mod 100 div 10\<close> when the remainder is a non-zero multiple
  of 10, and otherwise \<open>p div 100\<close>, a point and the remainder, which has no leading
  zero.  For \<open>p < 0\<close> it writes the truncated quotient alone.
\<close>

theorem price_codec:
  "(CHR ''.'' \<notin> set w \<and> decimal w = Some i \<longrightarrow> parsePrice w = Inr (wrap64 (i * 100)))
   \<and> (CHR ''.'' \<notin> set w \<and> decimal w = Some i \<and> decimal (pad f) = Some j
        \<longrightarrow> parsePrice (w @ ''.'' @ f) = Inr (wrap64 (i * 100 + j)))
   \<and> (in_int64 (i * 100 + j) \<longrightarrow> wrap64 (i * 100 + j) = i * 100 + j)
   \<and> (CHR ''.'' \<notin> set w \<and> decimal w = None
        \<longrightarrow> isl (parsePrice w) \<and> isl (parsePrice (w @ ''.'' @ f)))
   \<and> (CHR ''.'' \<notin> set w \<and> decimal (pad f) = None \<longrightarrow> isl (parsePrice (w @ ''.'' @ f)))
   \<and> (0 \<le> p \<and> p mod 100 = 0 \<longrightarrow> formatPrice p = itoa (p div 100))
   \<and> (0 \<le> p \<and> p mod 100 \<noteq> 0 \<and> p mod 10 = 0
        \<longrightarrow> formatPrice p = itoa (p div 100) @ ''.'' @ itoa (p mod 100 div 10)
          \<and> length (itoa (p mod 100 div 10)) = 1)
   \<and> (0 \<le> p \<and> p mod 10 \<noteq> 0
        \<longrightarrow> formatPrice p = itoa (p div 100) @ ''.'' @ itoa (p mod 100)
          \<and> hd (itoa (p mod 100)) \<noteq> CHR ''0'')
   \<and> (p < 0 \<longrightarrow> formatPrice p = itoa (p sdiv 100))"
proof (intro conjI impI)
  assume "CHR ''.'' \<notin> set w \<and> decimal w = Some i"
  then show "parsePrice w = Inr (wrap64 (i * 100))"
    by (simp add: parsePrice_whole ParseInt_decimal_Some)
next
  assume "CHR ''.'' \<notin> set w \<and> decimal w = Some i \<and> decimal (pad f) = Some j"
  then show "parsePrice (w @ ''.'' @ f) = Inr (wrap64 (i * 100 + j))"
    by (simp add: parsePrice_point ParseInt_decimal_Some)
next
  assume "in_int64 (i * 100 + j)"
  then show "wrap64 (i * 100 + j) = i * 100 + j" by (rule wrap64_id)
next
  assume a: "CHR ''.'' \<notin> set w \<and> decimal w = None"
  then have "isl (ParseInt w)" by (simp add: ParseInt_decimal_None)
  then obtain e where e: "ParseInt w = Inl e" by (cases "ParseInt w") simp_all
  with a show "isl (parsePrice w)" by (simp add: parsePrice_whole)
  from a e show "isl (parsePrice (w @ ''.'' @ f))" by (simp add: parsePrice_point)
next
  assume a: "CHR ''.'' \<notin> set w \<and> decimal (pad f) = None"
  then have "isl (ParseInt (pad f))" by (simp add: ParseInt_decimal_None)
  then obtain e where e: "ParseInt (pad f) = Inl e" by (cases "ParseInt (pad f)") simp_all
  with a show "isl (parsePrice (w @ ''.'' @ f))"
    by (simp add: parsePrice_point split: sum.split)
next
  assume "0 \<le> p \<and> p mod 100 = 0"
  then show "formatPrice p = itoa (p div 100)" by (simp add: formatPrice_nonneg)
next
  assume a: "0 \<le> p \<and> p mod 100 \<noteq> 0 \<and> p mod 10 = 0"
  then show "formatPrice p = itoa (p div 100) @ ''.'' @ itoa (p mod 100 div 10)"
    by (simp add: formatPrice_nonneg)
  have "0 \<le> p mod 100 div 10" "p mod 100 div 10 < 10" by simp_all
  then show "length (itoa (p mod 100 div 10)) = 1"
    by (simp add: itoa_def length_digits_one)
next
  assume a: "0 \<le> p \<and> p mod 10 \<noteq> 0"
  then have "p mod 100 mod 10 \<noteq> 0" by (simp add: mod_mod_cancel)
  then have n0: "p mod 100 \<noteq> 0" by auto
  with a show "formatPrice p = itoa (p div 100) @ ''.'' @ itoa (p mod 100)"
    by (simp add: formatPrice_nonneg)
  have "0 \<le> p mod 100" by simp
  with n0 have "0 < nat (p mod 100)" by simp
  from hd_digits_nonzero [OF this] show "hd (itoa (p mod 100)) \<noteq> CHR ''0''"
    by (simp add: itoa_def)
next
  assume "p < 0"
  then show "formatPrice p = itoa (p sdiv 100)" by (rule formatPrice_neg)
qed

lemmas parse_simps = parsePrice_def SplitN2_def ParseInt_def ParseUint_def is_digit_def
  digit_value_def maxUint64_def wrap64_def Let_def

lemmas format_simps = formatPrice_def signed_modulo_int_def signed_divide_int_def itoa_def
  digits.simps Let_def char_of_def bit_iff_odd

text \<open>
  C8 as it is stated fails in three places.  The remainder of \<open>- 150\<close> by 100 is a
  non-zero multiple of 10 (for truncated and for floored division alike), and
  \<open>formatPrice\<close> writes no fractional digit.  The text \<open>-\<close> after the point is not a
  base-10 integer, and \<open>parsePrice\<close> does not fail on it.  The whole part
  92233720368547758 and the cents 08 give a sum beyond Go's \<^verbatim>\<open>int\<close>, and the result
  is not that sum.
\<close>

theorem price_codec_counterexample:
  "(- 150 :: int) smod 100 \<noteq> 0 \<and> (- 150 :: int) smod 100 smod 10 = 0
   \<and> (- 150 :: int) mod 100 \<noteq> 0 \<and> (- 150 :: int) mod 100 mod 10 = 0
   \<and> formatPrice (- 150) = ''-1''
   \<and> \<not> is_decimal ''-'' \<and> parsePrice ''1.-'' = Inr 100
   \<and> parsePrice ''92233720368547758.08'' = Inr (- 9223372036854775808)"
proof -
  have a: "(- 150 :: int) smod 100 \<noteq> 0" "(- 150 :: int) smod 100 smod 10 = 0"
    "(- 150 :: int) mod 100 \<noteq> 0" "(- 150 :: int) mod 100 mod 10 = 0"
    by (simp_all add: signed_modulo_int_def)
  have b: "formatPrice (- 150) = ''-1''" by (simp add: format_simps)
  have c: "\<not> is_decimal ''-''" by (simp add: is_decimal_def unsigned_part_def)
  have d: "parsePrice ''1.-'' = Inr 100" by (simp add: parse_simps)
  have e: "parsePrice ''92233720368547758.08'' = Inr (- 9223372036854775808)"
    by (simp add: parse_simps)
  show ?thesis by (intro conjI a b c d e)
qed

lemmas decimal_simps = decimal_def is_decimal_def unsigned_part_def decimal_value_def
  digits_value_def digit_value_def is_digit_def in_int64_def pad_def

text \<open>
  The examples of C8: the texts \<open>213.82\<close>, \<open>213.8\<close> and \<open>213\<close> and the prices 21382,
  21380 and 21300; two texts that are refused; and a negative price.
\<close>

theorem price_codec_witness:
  "parsePrice ''213.82'' = Inr 21382
   \<and> parsePrice ''213.8'' = Inr 21380
   \<and> parsePrice ''213'' = Inr 21300
   \<and> formatPrice 21382 = ''213.82''
   \<and> formatPrice 21380 = ''213.8''
   \<and> formatPrice 21300 = ''213''
   \<and> isl (parsePrice ''21x.8'')
   \<and> isl (parsePrice ''213.x'')
   \<and> formatPrice (- 21382) = ''-213''"
proof -
  have nd: "CHR ''.'' \<notin> set ''213''" "CHR ''.'' \<notin> set ''21x''" by simp_all
  have dw: "decimal ''213'' = Some 213" by (simp add: decimal_simps)
  have d82: "decimal (pad ''82'') = Some 82" by (simp add: decimal_simps)
  have d8: "decimal (pad ''8'') = Some 80" by (simp add: decimal_simps)
  have dx: "decimal ''21x'' = None" "decimal (pad ''x'') = None" by (simp_all add: decimal_simps)
  have w: "wrap64 (213 * 100 + 82) = 21382" "wrap64 (213 * 100 + 80) = 21380"
    "wrap64 (213 * 100) = 21300"
    by (simp_all add: wrap64_def)
  have s: "''213'' @ ''.'' @ ''82'' = ''213.82''" "''213'' @ ''.'' @ ''8'' = ''213.8''"
    "''21x'' @ ''.'' @ ''8'' = ''21x.8''" "''213'' @ ''.'' @ ''x'' = ''213.x''"
    by simp_all
  have i: "itoa (21382 div 100) @ ''.'' @ itoa (21382 mod 100) = ''213.82''"
    "itoa (21380 div 100) @ ''.'' @ itoa (21380 mod 100 div 10) = ''213.8''"
    "itoa (21300 div 100) = ''213''" "itoa (- 21382 sdiv 100) = ''-213''"
    by (simp_all add: format_simps)
  note A = price_codec [where w = "''213''" and i = 213 and f = "''82''" and j = 82
      and p = 21382]
  note B = price_codec [where w = "''213''" and i = 213 and f = "''8''" and j = 80
      and p = 21380]
  note C = price_codec [where w = "''21x''" and i = 0 and f = "''8''" and j = 0
      and p = 21300]
  note D = price_codec [where w = "''213''" and i = 213 and f = "''x''" and j = 0
      and p = "- 21382"]
  have 1: "parsePrice ''213.82'' = Inr 21382"
    using mp [OF A [THEN conjunct2, THEN conjunct1] conjI [OF nd(1) conjI [OF dw d82]]]
    unfolding s w .
  have 2: "parsePrice ''213.8'' = Inr 21380"
    using mp [OF B [THEN conjunct2, THEN conjunct1] conjI [OF nd(1) conjI [OF dw d8]]]
    unfolding s w .
  have 3: "parsePrice ''213'' = Inr 21300"
    using mp [OF A [THEN conjunct1] conjI [OF nd(1) dw]]
    unfolding w .
  have h4: "(0::int) \<le> 21382 \<and> (21382::int) mod 10 \<noteq> 0" by simp
  have 4: "formatPrice 21382 = ''213.82''"
    using mp [OF A [THEN conjunct2, THEN conjunct2, THEN conjunct2, THEN conjunct2,
        THEN conjunct2, THEN conjunct2, THEN conjunct2, THEN conjunct1] h4, THEN conjunct1]
    unfolding i .
  have h5: "(0::int) \<le> 21380 \<and> (21380::int) mod 100 \<noteq> 0 \<and> (21380::int) mod 10 = 0" by simp
  have 5: "formatPrice 21380 = ''213.8''"
    using mp [OF B [THEN conjunct2, THEN conjunct2, THEN conjunct2, THEN conjunct2,
        THEN conjunct2, THEN conjunct2, THEN conjunct1] h5, THEN conjunct1]
    unfolding i .
  have h6: "(0::int) \<le> 21300 \<and> (21300::int) mod 100 = 0" by simp
  have 6: "formatPrice 21300 = ''213''"
    using mp [OF C [THEN conjunct2, THEN conjunct2, THEN conjunct2, THEN conjunct2,
        THEN conjunct2, THEN conjunct1] h6]
    unfolding i .
  have 7: "isl (parsePrice ''21x.8'')"
    using mp [OF C [THEN conjunct2, THEN conjunct2, THEN conjunct2, THEN conjunct1]
        conjI [OF nd(2) dx(1)], THEN conjunct2]
    unfolding s .
  have 8: "isl (parsePrice ''213.x'')"
    using mp [OF D [THEN conjunct2, THEN conjunct2, THEN conjunct2, THEN conjunct2,
        THEN conjunct1] conjI [OF nd(1) dx(2)]]
    unfolding s .
  have h9: "(- 21382 :: int) < 0" by simp
  have 9: "formatPrice (- 21382) = ''-213''"
    using mp [OF D [THEN conjunct2, THEN conjunct2, THEN conjunct2, THEN conjunct2,
        THEN conjunct2, THEN conjunct2, THEN conjunct2, THEN conjunct2] h9]
    unfolding i .
  show ?thesis by (intro conjI 1 2 3 4 5 6 7 8 9)
qed

end
